theory Spec2Isabelle
  imports Main "HOL-Library.Word" "HOL-Library.Stream"
begin

unbundle bit_operations_syntax

section \<open>Clarity.js: the noisy key exchange\<close>

text \<open>
  The script \<^verbatim>\<open>Clarity.js\<close> draws 256 public bases, 256 secrets for each of the two
  parties and one noise byte for every public value from \<^verbatim>\<open>crypto.getRandomValues\<close>,
  and derives one key bit per dimension on each side. JavaScript's \<^verbatim>\<open>BigInt\<close> is
  \<^typ>\<open>int\<close>; an element of a \<^verbatim>\<open>Uint8Array\<close> is an \<^typ>\<open>8 word\<close>; the byte source is
  the stream of the bytes it hands out, in the order of the calls, passed along as state.
  An exception of the script is the \<open>Inl\<close> of a sum.
\<close>

subsection \<open>Values, errors and the byte source\<close>

datatype error = RangeError | TypeError | QuotaExceededError

type_synonym uint8 = "8 word"

type_synonym rng = "uint8 stream"

definition getRandomValues :: "nat \<Rightarrow> rng \<Rightarrow> error + (uint8 list \<times> rng)" where
  \<comment> \<open>\<^verbatim>\<open>crypto.getRandomValues(new Uint8Array(n))\<close>: the next \<open>n\<close> bytes of the source. A
      request for more than 65536 bytes throws a QuotaExceededError.\<close>
  "getRandomValues n s =
     (if 65536 < n then Inl QuotaExceededError else Inr (stake n s, sdrop n s))"

definition bigint_rem :: "int \<Rightarrow> int \<Rightarrow> int" where
  \<comment> \<open>\<^verbatim>\<open>a % b\<close> on BigInt for \<open>b \<noteq> 0\<close>: the remainder of the division that truncates
      towards zero (the sign is the dividend's). \<^verbatim>\<open>a % 0n\<close> throws a RangeError, which
      the callers below check before they come here.\<close>
  "bigint_rem a b = sgn a * (\<bar>a\<bar> mod \<bar>b\<bar>)"

definition bind_err :: "error + 'a \<Rightarrow> ('a \<Rightarrow> error + 'b) \<Rightarrow> error + 'b" where
  \<comment> \<open>Sequencing of statements that may throw: the first exception ends the script.\<close>
  "bind_err m f = (case m of Inl e \<Rightarrow> Inl e | Inr x \<Rightarrow> f x)"

subsection \<open>Parameters\<close>

definition Q :: int where
  "Q = push_bit 256 1 - 189"

definition SECRET_MAX :: int where
  "SECRET_MAX = push_bit 40 1"

definition NOISE_MAX :: int where
  "NOISE_MAX = 1"

definition NUM_BITS :: nat where
  "NUM_BITS = 256"

subsection \<open>Rendering a BigInt in a radix\<close>

definition digit_char :: "nat \<Rightarrow> char" where
  \<comment> \<open>The digit of value \<open>d\<close>, for \<open>d < 36\<close>; \<open>to_digits\<close> asks for \<open>d\<close> below the radix.\<close>
  "digit_char d = ''0123456789abcdefghijklmnopqrstuvwxyz'' ! d"

function to_digits :: "nat \<Rightarrow> nat \<Rightarrow> string" where
  \<comment> \<open>The digits of a non-negative integer, most significant first, with no leading zero.
      The script's radices are 2 and 16; the test \<open>radix < 2\<close> only makes the recursion end
      for a radix that \<^verbatim>\<open>toString\<close> refuses.\<close>
  "to_digits radix n =
     (if n < radix \<or> radix < 2 then [digit_char n]
      else to_digits radix (n div radix) @ [digit_char (n mod radix)])"
  by pat_completeness auto
termination
  by (relation "measure (\<lambda>(radix, n). n)") auto

declare to_digits.simps [simp del]

definition bigint_toString :: "nat \<Rightarrow> int \<Rightarrow> string" where
  \<comment> \<open>\<^verbatim>\<open>n.toString(radix)\<close>; the script calls it with the radices 2 and 16 only.\<close>
  "bigint_toString radix n =
     (if n < 0 then CHR ''-'' # to_digits radix (nat (- n)) else to_digits radix (nat n))"

definition padStart :: "nat \<Rightarrow> char \<Rightarrow> string \<Rightarrow> string" where
  \<comment> \<open>\<^verbatim>\<open>s.padStart(n, c)\<close> with a one-character filler: a longer string is left alone.\<close>
  "padStart n c s = replicate (n - length s) c @ s"

subsection \<open>Helper functions of the script\<close>

function randomBigInt_loop :: "nat \<Rightarrow> nat \<Rightarrow> uint8 list \<Rightarrow> int \<Rightarrow> int" where
  "randomBigInt_loop i bytes array result =
     (if i < bytes
      then randomBigInt_loop (i + 1) bytes array (push_bit 8 result + uint (array ! i))
      else result)"
  by pat_completeness auto
termination
  by (relation "measure (\<lambda>(i, bytes, array, result). bytes - i)") auto

declare randomBigInt_loop.simps [simp del]

definition random_bytes :: "int \<Rightarrow> nat" where
  \<comment> \<open>\<^verbatim>\<open>Math.ceil(max.toString(2).length / 8)\<close>\<close>
  "random_bytes mx = (length (bigint_toString 2 mx) + 7) div 8"

definition randomBigInt :: "int \<Rightarrow> rng \<Rightarrow> error + (int \<times> rng)" where
  "randomBigInt mx s =
     (let bytes = random_bytes mx in
      bind_err (getRandomValues bytes s) (\<lambda>(array, s').
      let result = randomBigInt_loop 0 bytes array 0
      in if mx = 0 then Inl RangeError else Inr (bigint_rem result mx, s')))"

definition noise_of_byte :: "uint8 \<Rightarrow> int" where
  \<comment> \<open>\<^verbatim>\<open>noiseCategory = randomByte % 3; noise = BigInt(noiseCategory - 1)\<close>\<close>
  "noise_of_byte randomByte = int (unat randomByte mod 3) - 1"

definition addNoise :: "int \<Rightarrow> rng \<Rightarrow> error + (int \<times> rng)" where
  "addNoise v s =
     bind_err (getRandomValues 1 s) (\<lambda>(array, s').
     let randomByte = array ! 0;
         noise = noise_of_byte randomByte
     in Inr (bigint_rem (v + noise + Q) Q, s'))"

definition bitsToBigInt :: "int list \<Rightarrow> int" where
  \<comment> \<open>\<^verbatim>\<open>bits.reduce((acc, bit) => (acc << 1n) | bit, 0n)\<close>\<close>
  "bitsToBigInt bits = foldl (\<lambda>acc b. push_bit 1 acc OR b) 0 bits"

subsection \<open>The array transformations of the script\<close>

fun fill_randomBigInt :: "nat \<Rightarrow> int \<Rightarrow> rng \<Rightarrow> error + (int list \<times> rng)" where
  \<comment> \<open>\<^verbatim>\<open>Array(n).fill(null).map(() => randomBigInt(max))\<close>, written \<open>mx\<close> here: \<open>n\<close> calls, in index order.\<close>
  "fill_randomBigInt 0 mx s = Inr ([], s)"
| "fill_randomBigInt (Suc n) mx s =
     bind_err (randomBigInt mx s) (\<lambda>(x, s').
     bind_err (fill_randomBigInt n mx s') (\<lambda>(xs, s'').
     Inr (x # xs, s'')))"

fun map_addNoise :: "int list \<Rightarrow> rng \<Rightarrow> error + (int list \<times> rng)" where
  \<comment> \<open>\<^verbatim>\<open>publics.map(pub => addNoise(pub))\<close>\<close>
  "map_addNoise [] s = Inr ([], s)"
| "map_addNoise (pub # pubs) s =
     bind_err (addNoise pub s) (\<lambda>(x, s').
     bind_err (map_addNoise pubs s') (\<lambda>(xs, s'').
     Inr (x # xs, s'')))"

fun map_index :: "('a \<Rightarrow> nat \<Rightarrow> error + 'b) \<Rightarrow> nat \<Rightarrow> 'a list \<Rightarrow> error + 'b list" where
  \<comment> \<open>\<^verbatim>\<open>xs.map((x, i) => f(x, i))\<close> from index \<open>i\<close> on, for a callback that may throw.\<close>
  "map_index f i [] = Inr []"
| "map_index f i (x # xs) =
     bind_err (f x i) (\<lambda>y.
     bind_err (map_index f (Suc i) xs) (\<lambda>ys.
     Inr (y # ys)))"

definition public_at :: "int list \<Rightarrow> int \<Rightarrow> nat \<Rightarrow> error + int" where
  \<comment> \<open>\<^verbatim>\<open>(secret, i) => (G_ARRAY[i] * secret) % Q\<close>. Past the end \<^verbatim>\<open>G_ARRAY[i]\<close> is
      \<^verbatim>\<open>undefined\<close>, and its product with a BigInt throws a TypeError.\<close>
  "public_at G secret i =
     (if i < length G then Inr (bigint_rem (G ! i * secret) Q) else Inl TypeError)"

definition shared_at :: "int list \<Rightarrow> int \<Rightarrow> nat \<Rightarrow> error + int" where
  \<comment> \<open>\<^verbatim>\<open>(pub, i) => (pub * secrets[i]) % Q\<close>\<close>
  "shared_at secrets pub i =
     (if i < length secrets then Inr (bigint_rem (pub * secrets ! i) Q) else Inl TypeError)"

definition extract_bit :: "int \<Rightarrow> int" where
  \<comment> \<open>\<^verbatim>\<open>val => (val >> 255n) & 1n\<close>\<close>
  "extract_bit val = drop_bit 255 val AND 1"

definition key_hex :: "int \<Rightarrow> string" where
  \<comment> \<open>\<^verbatim>\<open>key.toString(16).padStart(64, '0')\<close>, as the script prints both keys.\<close>
  "key_hex k = padStart 64 CHR ''0'' (bigint_toString 16 k)"

subsection \<open>The script\<close>

record exchange =
  G_ARRAY :: "int list"
  aliceSecrets :: "int list"
  alicePublics :: "int list"
  alicePublicsNoisy :: "int list"
  bobSecrets :: "int list"
  bobPublics :: "int list"
  bobPublicsNoisy :: "int list"
  sharedAlice :: "int list"
  sharedBob :: "int list"
  keyAlice :: "int list"
  keyBob :: "int list"
  keyAliceBigInt :: int
  keyBobBigInt :: int

definition clarity :: "rng \<Rightarrow> error + exchange" where
  "clarity s0 =
     bind_err (fill_randomBigInt NUM_BITS Q s0) (\<lambda>(G, s1).
     bind_err (fill_randomBigInt NUM_BITS SECRET_MAX s1) (\<lambda>(aS, s2).
     bind_err (map_index (public_at G) 0 aS) (\<lambda>aP.
     bind_err (map_addNoise aP s2) (\<lambda>(aPN, s3).
     bind_err (fill_randomBigInt NUM_BITS SECRET_MAX s3) (\<lambda>(bS, s4).
     bind_err (map_index (public_at G) 0 bS) (\<lambda>bP.
     bind_err (map_addNoise bP s4) (\<lambda>(bPN, s5).
     bind_err (map_index (shared_at aS) 0 bPN) (\<lambda>shA.
     bind_err (map_index (shared_at bS) 0 aPN) (\<lambda>shB.
     let kA = map extract_bit shA; kB = map extract_bit shB in
     Inr \<lparr>G_ARRAY = G, aliceSecrets = aS, alicePublics = aP, alicePublicsNoisy = aPN,
          bobSecrets = bS, bobPublics = bP, bobPublicsNoisy = bPN,
          sharedAlice = shA, sharedBob = shB, keyAlice = kA, keyBob = kB,
          keyAliceBigInt = bitsToBigInt kA, keyBobBigInt = bitsToBigInt kB\<rparr>)))))))))"

subsection \<open>Notions the properties are stated with\<close>

definition be_value :: "uint8 list \<Rightarrow> int" where
  \<comment> \<open>The integer a byte sequence denotes, most significant byte first.\<close>
  "be_value bs = foldl (\<lambda>r b. 256 * r + uint b) 0 bs"

definition aliceNoiseBytes :: "rng \<Rightarrow> uint8 list" where
  \<comment> \<open>The bytes that Alice's 256 calls of \<^verbatim>\<open>addNoise\<close> draw: the script has drawn the bases
      and Alice's secrets before.\<close>
  "aliceNoiseBytes s =
     stake NUM_BITS (sdrop (NUM_BITS * random_bytes Q + NUM_BITS * random_bytes SECRET_MAX) s)"

definition bobNoiseBytes :: "rng \<Rightarrow> uint8 list" where
  \<comment> \<open>The bytes that Bob's 256 calls of \<^verbatim>\<open>addNoise\<close> draw: the script has drawn the bases,
      Alice's secrets, Alice's noise and Bob's secrets before.\<close>
  "bobNoiseBytes s =
     stake NUM_BITS (sdrop (NUM_BITS * random_bytes Q + NUM_BITS * random_bytes SECRET_MAX
       + NUM_BITS + NUM_BITS * random_bytes SECRET_MAX) s)"

definition draws ::
  "uint8 list list \<Rightarrow> uint8 list list \<Rightarrow> uint8 list \<Rightarrow> uint8 list list \<Rightarrow> uint8 list \<Rightarrow> rng \<Rightarrow> rng"
  where
  \<comment> \<open>A byte source that hands out, in the order of the script's calls, the arrays \<open>gs\<close> for
      the bases, \<open>sa\<close> for Alice's secrets, the bytes \<open>na\<close> for Alice's noise, \<open>sb\<close> for
      Bob's secrets and \<open>nb\<close> for Bob's noise, and then goes on with \<open>rest\<close>.\<close>
  "draws gs sa na sb nb rest = concat gs @- concat sa @- na @- concat sb @- nb @- rest"

definition mismatch_draws :: rng where
  \<comment> \<open>In every dimension: the basis 0, both secrets 1, the byte 0 (noise \<open>-1\<close>) for Alice's
      public value and the byte 1 (noise \<open>0\<close>) for Bob's.\<close>
  "mismatch_draws =
     draws (replicate 256 (replicate 32 0)) (replicate 256 [0, 0, 0, 0, 0, 1]) (replicate 256 0)
       (replicate 256 [0, 0, 0, 0, 0, 1]) (replicate 256 1) (sconst 0)"

definition variant_draws :: rng where
  \<comment> \<open>The draws of \<open>mismatch_draws\<close> in dimension 0, and other draws in the dimensions 1 to
      255: the basis 7, Alice's secret 3, the byte 2 (noise \<open>+1\<close>) for Alice's public value and
      the byte 0 (noise \<open>-1\<close>) for Bob's.\<close>
  "variant_draws =
     draws (replicate 32 0 # replicate 255 (replicate 31 0 @ [7]))
       ([0, 0, 0, 0, 0, 1] # replicate 255 [0, 0, 0, 0, 0, 3]) (0 # replicate 255 2)
       (replicate 256 [0, 0, 0, 0, 0, 1]) (1 # replicate 255 0) (sconst 5)"

definition randomBigInt_preimages :: "int \<Rightarrow> int \<Rightarrow> uint8 list set" where
  \<comment> \<open>The byte arrays of the length that \<^verbatim>\<open>randomBigInt(max)\<close> asks for and on which it
      returns \<open>v\<close>, whatever the source hands out afterwards.\<close>
  "randomBigInt_preimages mx v =
     {array. length array = random_bytes mx \<and>
        (\<forall>s. \<exists>s'. randomBigInt mx (array @- s) = Inr (v, s'))}"

subsection \<open>Decoding a printed key\<close>

text \<open>
  Modelled from the spec: the script only prints the keys and has no decoder. The spec's
  round-trip property speaks of decoding the fixed-width hexadecimal string back and
  reproducing the bit sequence; the three definitions below are that decoder: the value of a
  hexadecimal digit, the integer a hexadecimal string denotes (\<open>None\<close> when a character is
  not a hexadecimal digit), and the \<open>NUM_BITS\<close> bits of a key, most significant first, each
  read as the script reads a key bit (\<^verbatim>\<open>(k >> j) & 1n\<close>).
\<close>

definition hex_digit :: "char \<Rightarrow> int option" where
  \<comment> \<open>Modelled from the spec: the value of one hexadecimal digit.\<close>
  "hex_digit c =
     (let n = (of_char c :: nat) in
      if 48 \<le> n \<and> n \<le> 57 then Some (int n - 48)
      else if 97 \<le> n \<and> n \<le> 102 then Some (int n - 87)
      else if 65 \<le> n \<and> n \<le> 70 then Some (int n - 55)
      else None)"

fun parse_hex :: "int \<Rightarrow> string \<Rightarrow> int option" where
  \<comment> \<open>Modelled from the spec: decoding a hexadecimal string, from the accumulator on.\<close>
  "parse_hex acc [] = Some acc"
| "parse_hex acc (c # cs) =
     (case hex_digit c of None \<Rightarrow> None | Some d \<Rightarrow> parse_hex (16 * acc + d) cs)"

definition key_bits :: "int \<Rightarrow> int list" where
  \<comment> \<open>Modelled from the spec: re-extracting the bits of a key, dimension 0 first.\<close>
  "key_bits k = map (\<lambda>i. drop_bit (NUM_BITS - 1 - i) k AND 1) [0..<NUM_BITS]"

definition decode_key :: "string \<Rightarrow> int list option" where
  \<comment> \<open>Modelled from the spec: from the printed key back to the bit sequence.\<close>
  "decode_key s = map_option key_bits (parse_hex 0 s)"

section \<open>Properties\<close>

subsection \<open>The helper functions\<close>

lemma bind_err_Inr [simp]: "bind_err (Inr x) f = f x"
  by (simp add: bind_err_def)

lemma bind_err_Inl [simp]: "bind_err (Inl e) f = Inl e"
  by (simp add: bind_err_def)

lemma getRandomValues_eq:
  "n \<le> 65536 \<Longrightarrow> getRandomValues n s = Inr (stake n s, sdrop n s)"
  by (simp add: getRandomValues_def)

lemma bigint_rem_nonneg: "0 \<le> a \<Longrightarrow> 0 < b \<Longrightarrow> bigint_rem a b = a mod b"
  by (cases "a = 0") (simp_all add: bigint_rem_def)

lemma Q_pos: "0 < Q" by (simp add: Q_def)
lemma SECRET_MAX_pos: "0 < SECRET_MAX" by (simp add: SECRET_MAX_def)

lemma loop_foldl:
  "i \<le> length array \<Longrightarrow>
   randomBigInt_loop i (length array) array r = foldl (\<lambda>r b. 256 * r + uint b) r (drop i array)"
proof (induction i "length array" array r rule: randomBigInt_loop.induct)
  case (1 i array r)
  show ?case
  proof (cases "i < length array")
    case True
    then have d: "drop i array = array ! i # drop (Suc i) array"
      by (simp add: Cons_nth_drop_Suc)
    from True 1 show ?thesis
      by (subst randomBigInt_loop.simps) (simp add: d push_bit_eq_mult mult.commute)
  next
    case False
    with 1 show ?thesis
      by (subst randomBigInt_loop.simps) simp
  qed
qed

lemma loop_be_value: "randomBigInt_loop 0 (length array) array 0 = be_value array"
  using loop_foldl [of 0 array 0] by (simp add: be_value_def)

lemma be_value_snoc: "be_value (bs @ [b]) = 256 * be_value bs + uint b"
  by (simp add: be_value_def)

lemma be_value_Nil: "be_value [] = 0"
  by (simp add: be_value_def)

lemma be_value_bounds: "0 \<le> be_value bs \<and> be_value bs < 256 ^ length bs"
proof (induction bs rule: rev_induct)
  case Nil
  show ?case by (simp add: be_value_Nil)
next
  case (snoc b bs)
  have "uint b < 256" using uint_bounded [of b] by simp
  moreover have "0 \<le> uint b" by simp
  ultimately show ?case using snoc by (simp add: be_value_snoc)
qed

lemma randomBigInt_eq:
  "0 < mx \<Longrightarrow> random_bytes mx \<le> 65536 \<Longrightarrow> randomBigInt mx s =
     Inr (be_value (stake (random_bytes mx) s) mod mx, sdrop (random_bytes mx) s)"
  using loop_be_value [of "stake (random_bytes mx) s"] be_value_bounds [of "stake (random_bytes mx) s"]
  by (simp add: randomBigInt_def getRandomValues_eq Let_def bigint_rem_nonneg)

lemma randomBigInt_quota:
  "65536 < random_bytes mx \<Longrightarrow> randomBigInt mx s = Inl QuotaExceededError"
  by (simp add: randomBigInt_def getRandomValues_def Let_def)

lemma addNoise_eq:
  "addNoise v s = Inr (bigint_rem (v + noise_of_byte (shd s) + Q) Q, stl s)"
  by (simp add: addNoise_def getRandomValues_eq)

lemma noise_of_byte_range: "noise_of_byte b \<in> {-1, 0, 1}"
proof -
  have "unat b mod 3 < 3" by simp
  then have "unat b mod 3 = 0 \<or> unat b mod 3 = 1 \<or> unat b mod 3 = 2" by arith
  then show ?thesis by (auto simp: noise_of_byte_def)
qed

lemma length_to_digits2:
  "0 < n \<Longrightarrow> n < 2 ^ k \<Longrightarrow> 2 ^ k \<le> 2 * n \<Longrightarrow> length (to_digits 2 n) = k"
proof (induction k arbitrary: n)
  case 0
  then show ?case by simp
next
  case (Suc k)
  show ?case
  proof (cases "n < 2")
    case True
    with Suc.prems have "n = 1" by simp
    with Suc.prems have "(2::nat) ^ k \<le> 2 ^ 0" by simp
    then have "k = 0" using power_le_imp_le_exp [of "2::nat" k 0] by simp
    with \<open>n = 1\<close> show ?thesis by (subst to_digits.simps) simp
  next
    case False
    have a: "0 < n div 2" using False by simp
    have b: "n div 2 < 2 ^ k" using Suc.prems by simp
    have "2 ^ k \<le> n" using Suc.prems by simp
    moreover have "0 < k" using False Suc.prems by (cases k) simp_all
    then have "even ((2::nat) ^ k)" by simp
    ultimately have c: "2 ^ k \<le> 2 * (n div 2)"
      by presburger
    from Suc.IH [OF a b c] False show ?thesis
      by (subst to_digits.simps) simp
  qed
qed

lemma random_bytes_Q: "random_bytes Q = 32"
proof -
  have "length (to_digits 2 (nat Q)) = 256"
    by (rule length_to_digits2) (simp_all add: Q_def)
  then show ?thesis using Q_pos by (simp add: random_bytes_def bigint_toString_def)
qed

lemma random_bytes_SECRET_MAX: "random_bytes SECRET_MAX = 6"
proof -
  have "length (to_digits 2 (nat SECRET_MAX)) = 41"
    by (rule length_to_digits2) (simp_all add: SECRET_MAX_def)
  then show ?thesis using SECRET_MAX_pos by (simp add: random_bytes_def bigint_toString_def)
qed

lemma Q_quota: "random_bytes Q \<le> 65536"
  by (simp add: random_bytes_Q)

lemma SECRET_MAX_quota: "random_bytes SECRET_MAX \<le> 65536"
  by (simp add: random_bytes_SECRET_MAX)

subsection \<open>Bit extraction and noise on one value\<close>

lemma extract_bit_eq: "extract_bit v = (v div 2 ^ 255) mod 2"
  by (simp add: extract_bit_def and_one_eq drop_bit_eq_div)

lemma extract_bit_cases:
  assumes "0 \<le> v" "v < 2 ^ 256"
  shows "extract_bit v = (if 2 ^ 255 \<le> v then 1 else 0)"
proof (cases "(2::int) ^ 255 \<le> v")
  case True
  have "v div 2 ^ 255 = 1"
    using True assms by (intro int_div_pos_eq [where r = "v - 2 ^ 255"]) simp_all
  with True show ?thesis by (simp add: extract_bit_eq)
next
  case False
  then have "v div 2 ^ 255 = 0" using assms by (simp add: div_pos_pos_trivial)
  with False show ?thesis by (simp add: extract_bit_eq)
qed

lemma length_toString2_Q: "length (bigint_toString 2 Q) = 256"
proof -
  have "length (to_digits 2 (nat Q)) = 256"
    by (rule length_to_digits2) (simp_all add: Q_def)
  then show ?thesis using Q_pos by (simp add: bigint_toString_def)
qed

text \<open>
  Claim C4. The modulus has bit length 256, and for every shared value \<open>v\<close> in \<open>[0, Q)\<close>
  the key bit \<^verbatim>\<open>(v >> 255n) & 1n\<close> is bit 255 of \<open>v\<close>, the most significant bit of a
  256-bit non-negative integer: it is 1 exactly when \<open>2 ^ 255 \<le> v\<close> and 0 otherwise.
\<close>

theorem extract_bit_msb:
  "0 \<le> v \<Longrightarrow> v < Q \<Longrightarrow>
   length (bigint_toString 2 Q) = 256 \<and>
   extract_bit v = of_bool (bit v 255) \<and>
   (extract_bit v = 1 \<longleftrightarrow> 2 ^ 255 \<le> v) \<and>
   (extract_bit v = 0 \<longleftrightarrow> v < 2 ^ 255)"
proof -
  assume v: "0 \<le> v" "v < Q"
  then have v': "v < 2 ^ 256" by (simp add: Q_def)
  have a: "extract_bit v = (if 2 ^ 255 \<le> v then 1 else 0)"
    using v(1) v' by (rule extract_bit_cases)
  have b: "extract_bit v = of_bool (bit v 255)"
    by (simp add: extract_bit_eq bit_iff_odd of_bool_def) presburger
  show ?thesis using a b length_toString2_Q by (simp split: if_splits)
qed

theorem extract_bit_msb_witness:
  "(0::int) \<le> 2 ^ 255 \<and> (2::int) ^ 255 < Q \<and> extract_bit (2 ^ 255) = 1 \<and> extract_bit 5 = 0"
  using extract_bit_msb [of "2 ^ 255"] extract_bit_msb [of 5] by (simp add: Q_def)

lemma addNoise_range:
  assumes "0 \<le> v" "v < Q"
  shows "addNoise v s = Inr ((v + noise_of_byte (shd s) + Q) mod Q, stl s)"
    and "0 \<le> (v + noise_of_byte (shd s) + Q) mod Q"
    and "(v + noise_of_byte (shd s) + Q) mod Q < Q"
proof -
  have "noise_of_byte (shd s) \<in> {-1, 0, 1}" by (rule noise_of_byte_range)
  then have "0 \<le> v + noise_of_byte (shd s) + Q" using assms Q_pos by auto
  then show "addNoise v s = Inr ((v + noise_of_byte (shd s) + Q) mod Q, stl s)"
    using Q_pos by (simp add: addNoise_eq bigint_rem_nonneg)
  show "0 \<le> (v + noise_of_byte (shd s) + Q) mod Q" "(v + noise_of_byte (shd s) + Q) mod Q < Q"
    using Q_pos by simp_all
qed

lemma noise_realised:
  "noise_of_byte 0 = -1" "noise_of_byte 1 = 0" "noise_of_byte 2 = 1"
  by (simp_all add: noise_of_byte_def)

text \<open>
  Claim C3. For every value in \<open>[0, Q)\<close> and every noise \<open>n\<close> in \<open>{-1, 0, 1}\<close>, some byte
  gives the noise \<open>n\<close>, and when the byte that \<^verbatim>\<open>addNoise\<close> draws gives \<open>n\<close> the call returns
  (it throws nothing) exactly \<open>(value + n + Q) mod Q\<close>, which is non-negative and below the
  modulus, and has taken that one byte from the source.
\<close>

theorem addNoise_perturb:
  "0 \<le> v \<Longrightarrow> v < Q \<Longrightarrow> n \<in> {-1, 0, 1} \<Longrightarrow>
   (\<exists>b. noise_of_byte b = n) \<and>
   (noise_of_byte (shd s) = n \<longrightarrow>
      addNoise v s = Inr ((v + n + Q) mod Q, stl s) \<and>
      0 \<le> (v + n + Q) mod Q \<and> (v + n + Q) mod Q < Q)"
proof -
  assume v: "0 \<le> v" "v < Q" and n: "n \<in> {-1, 0, 1}"
  from n have "\<exists>b. noise_of_byte b = n"
    using noise_realised by (metis insertE singletonD)
  then show ?thesis using addNoise_range [OF v, of s] by auto
qed

theorem addNoise_perturb_witness:
  "(0::int) \<le> 0 \<and> 0 < Q \<and> (-1::int) \<in> {-1, 0, 1} \<and> noise_of_byte (shd (sconst 0)) = -1 \<and>
   addNoise 0 (sconst 0) = Inr (Q - 1, sconst 0) \<and>
   addNoise (Q - 1) (sconst 2) = Inr (0, sconst 2)"
  using addNoise_perturb [of 0 "-1" "sconst 0"] addNoise_perturb [of "Q - 1" 1 "sconst 2"]
  by (simp add: noise_realised Q_def)

lemma card_mod_eq:
  fixes m v :: nat
  assumes "v < m"
  shows "card {r. r < N \<and> r mod m = v} = (N + m - 1 - v) div m"
proof (induction N)
  case 0
  from assms show ?case by simp
next
  case (Suc N)
  have s: "{r. r < Suc N \<and> r mod m = v} =
      (if N mod m = v then insert N {r. r < N \<and> r mod m = v} else {r. r < N \<and> r mod m = v})"
    by (auto simp: less_Suc_eq)
  have e: "Suc N + m - 1 - v = Suc (N + m - 1 - v)" using assms by simp
  have "(N + m - v) mod m = 0 \<longleftrightarrow> N mod m = v"
  proof -
    define r where "r = N mod m"
    have r: "r < m" using assms by (simp add: r_def)
    have "N + m - v = N + (m - v)" using assms by simp
    then have "(N + m - v) mod m = (r + (m - v)) mod m"
      by (simp add: r_def mod_add_left_eq)
    also have "\<dots> = (if r + (m - v) < m then r + (m - v) else r + (m - v) - m)"
      using r assms by (simp add: mod_if)
    finally show ?thesis using r assms by (auto simp: r_def)
  qed
  moreover have "Suc (N + m - 1 - v) = N + m - v" using assms by simp
  ultimately have d: "Suc (N + m - 1 - v) mod m = 0 \<longleftrightarrow> N mod m = v"
    by (simp only:)
  show ?case using Suc by (simp only: s e div_Suc d) simp
qed

subsection \<open>The noise sample\<close>

lemma card_bytes: "card {b :: uint8. P (unat b)} = card {n. n < 256 \<and> P n}"
proof (rule bij_betw_same_card [where f = unat])
  show "bij_betw unat {b :: uint8. P (unat b)} {n. n < 256 \<and> P n}"
    unfolding bij_betw_def
  proof
    show "inj_on unat {b :: uint8. P (unat b)}"
      by (auto simp: inj_on_def intro: unsigned_word_eqI)
    show "unat ` {b :: uint8. P (unat b)} = {n. n < 256 \<and> P n}"
    proof (intro set_eqI iffI)
      fix n assume "n \<in> unat ` {b :: uint8. P (unat b)}"
      then obtain b :: uint8 where "n = unat b" "P (unat b)" by auto
      moreover have "unat b < 256" using unsigned_less [of b, where ?'a = nat] by simp
      ultimately show "n \<in> {n. n < 256 \<and> P n}" by simp
    next
      fix n assume "n \<in> {n. n < 256 \<and> P n}"
      then have n: "n < 256" "P n" by simp_all
      then have "unat (of_nat n :: uint8) = n" by (simp add: unat_of_nat)
      with n show "n \<in> unat ` {b :: uint8. P (unat b)}"
        by (intro image_eqI [where x = "of_nat n :: uint8"]) simp_all
    qed
  qed
qed

lemma noise_of_byte_iff:
  "noise_of_byte b = -1 \<longleftrightarrow> unat b mod 3 = 0"
  "noise_of_byte b = 0 \<longleftrightarrow> unat b mod 3 = 1"
  "noise_of_byte b = 1 \<longleftrightarrow> unat b mod 3 = 2"
  by (auto simp: noise_of_byte_def)

lemma noise_counts:
  "card {b. noise_of_byte b = -1} = 86"
  "card {b. noise_of_byte b = 0} = 85"
  "card {b. noise_of_byte b = 1} = 85"
  by (simp_all add: noise_of_byte_iff card_bytes [where P = "\<lambda>n. n mod 3 = k" for k] card_mod_eq)

text \<open>
  Claim C6, as amended. The noise of every byte is one of \<open>-1\<close>, \<open>0\<close>, \<open>+1\<close>. Of the 256
  bytes, 86 give \<open>-1\<close>, 85 give \<open>0\<close> and 85 give \<open>+1\<close>: reducing a byte modulo 3 favours
  \<open>-1\<close> by one preimage.
\<close>

theorem noise_sample_counts:
  "noise_of_byte b \<in> {-1, 0, 1} \<and>
   card {b. noise_of_byte b = -1} = 86 \<and>
   card {b. noise_of_byte b = 0} = 85 \<and>
   card {b. noise_of_byte b = 1} = 85"
  using noise_of_byte_range [of b] noise_counts by simp

text \<open>
  Claim C6 as stated fails: the three outcomes do not have equally many byte preimages.
\<close>

theorem noise_sample_not_uniform:
  "\<not> (card {b. noise_of_byte b = -1} = card {b. noise_of_byte b = 0} \<and>
      card {b. noise_of_byte b = 0} = card {b. noise_of_byte b = 1})"
  by (simp add: noise_counts)

subsection \<open>Key assembly\<close>

lemma bitsToBigInt_snoc:
  "b \<in> {0, 1} \<Longrightarrow> bitsToBigInt (bs @ [b]) = 2 * bitsToBigInt bs + b"
  by (auto simp: bitsToBigInt_def or_one_eq push_bit_eq_mult)

lemma bitsToBigInt_Nil: "bitsToBigInt [] = 0"
  by (simp add: bitsToBigInt_def)

lemma bitsToBigInt_sum:
  "set bits \<subseteq> {0, 1} \<Longrightarrow>
   bitsToBigInt bits = (\<Sum>i<length bits. bits ! i * 2 ^ (length bits - 1 - i))"
proof (induction bits rule: rev_induct)
  case Nil
  show ?case by (simp add: bitsToBigInt_Nil)
next
  case (snoc b bs)
  then have b: "b \<in> {0, 1}" and bs: "set bs \<subseteq> {0, 1}" by auto
  have "(\<Sum>i<length bs. (bs @ [b]) ! i * 2 ^ (length bs - i)) =
        (\<Sum>i<length bs. 2 * (bs ! i * 2 ^ (length bs - 1 - i)))"
  proof (rule sum.cong [OF refl])
    fix i assume "i \<in> {..<length bs}"
    then have i: "i < length bs" by simp
    then have "length bs - i = Suc (length bs - 1 - i)" by simp
    then show "(bs @ [b]) ! i * 2 ^ (length bs - i) = 2 * (bs ! i * 2 ^ (length bs - 1 - i))"
      using i by (simp add: nth_append)
  qed
  then show ?case
    using snoc.IH [OF bs] by (simp add: bitsToBigInt_snoc [OF b] sum_distrib_left)
qed

lemma bitsToBigInt_bounds:
  "set bits \<subseteq> {0, 1} \<Longrightarrow> 0 \<le> bitsToBigInt bits \<and> bitsToBigInt bits < 2 ^ length bits"
proof (induction bits rule: rev_induct)
  case Nil
  show ?case by (simp add: bitsToBigInt_Nil)
next
  case (snoc b bs)
  then have b: "b \<in> {0, 1}" and bs: "set bs \<subseteq> {0, 1}" by auto
  from snoc.IH [OF bs] b show ?case
    by (auto simp: bitsToBigInt_snoc [OF b])
qed

lemma bitsToBigInt_nth:
  "set bits \<subseteq> {0, 1} \<Longrightarrow> i < length bits \<Longrightarrow>
   drop_bit (length bits - 1 - i) (bitsToBigInt bits) AND 1 = bits ! i"
proof (induction bits rule: rev_induct)
  case Nil
  then show ?case by simp
next
  case (snoc b bs)
  then have b: "b \<in> {0, 1}" and bs: "set bs \<subseteq> {0, 1}" by auto
  show ?case
  proof (cases "i < length bs")
    case True
    then have "length bs - i = Suc (length bs - 1 - i)" by simp
    moreover have "(2 * bitsToBigInt bs + b) div 2 = bitsToBigInt bs" using b by auto
    ultimately have "drop_bit (length bs - i) (2 * bitsToBigInt bs + b) =
        drop_bit (length bs - 1 - i) (bitsToBigInt bs)"
      by (simp add: drop_bit_Suc)
    with snoc.IH [OF bs True] True show ?thesis
      by (simp add: bitsToBigInt_snoc [OF b] nth_append)
  next
    case False
    with snoc.prems have "i = length bs" by simp
    then show ?thesis using b by (auto simp: bitsToBigInt_snoc [OF b] and_one_eq)
  qed
qed

text \<open>
  Claim C7. For every list of \<open>n\<close> bits, \<^verbatim>\<open>bitsToBigInt\<close> is the sum of
  \<open>bits[i] * 2 ^ (n - 1 - i)\<close>, and the bit of dimension 0 is the most significant bit
  (bit \<open>n - 1\<close>) of the assembled key.
\<close>

theorem bitsToBigInt_msb_first:
  "set bits \<subseteq> {0, 1} \<Longrightarrow>
   bitsToBigInt bits = (\<Sum>i<length bits. bits ! i * 2 ^ (length bits - 1 - i)) \<and>
   (bits \<noteq> [] \<longrightarrow> bit (bitsToBigInt bits) (length bits - 1) = (bits ! 0 = 1))"
proof -
  assume a: "set bits \<subseteq> {0, 1}"
  have "bit (bitsToBigInt bits) (length bits - 1) = (bits ! 0 = 1)" if "bits \<noteq> []"
  proof -
    from that have l: "0 < length bits" by simp
    have "drop_bit (length bits - 1) (bitsToBigInt bits) AND 1 = bits ! 0"
      using bitsToBigInt_nth [OF a l] by simp
    moreover have "bits ! 0 \<in> {0, 1}" using a l by (metis nth_mem subsetD)
    ultimately show ?thesis
      by (auto simp: and_one_eq drop_bit_eq_div bit_iff_odd)
  qed
  then show ?thesis using bitsToBigInt_sum [OF a] by simp
qed

theorem bitsToBigInt_msb_first_witness:
  "set [1, 0, 1, 1] \<subseteq> {0, 1 :: int} \<and> [1, 0, 1, 1 :: int] \<noteq> [] \<and>
   bitsToBigInt [1, 0, 1, 1] = 11 \<and> bit (bitsToBigInt [1, 0, 1, 1]) 3"
  using bitsToBigInt_msb_first [of "[1, 0, 1, 1]"]
  by (simp add: lessThan_Suc numeral_eq_Suc)

subsection \<open>The array transformations and the script\<close>

lemma fill_randomBigInt_run:
  "0 < mx \<Longrightarrow> random_bytes mx \<le> 65536 \<Longrightarrow>
   \<exists>xs. fill_randomBigInt n mx s = Inr (xs, sdrop (n * random_bytes mx) s) \<and> length xs = n \<and>
        (\<forall>x\<in>set xs. 0 \<le> x \<and> x < mx)"
proof (induction n arbitrary: s)
  case 0
  show ?case by simp
next
  case (Suc n)
  from Suc.IH [OF Suc.prems, of "sdrop (random_bytes mx) s"]
  obtain xs where xs:
    "fill_randomBigInt n mx (sdrop (random_bytes mx) s) =
       Inr (xs, sdrop (n * random_bytes mx) (sdrop (random_bytes mx) s))"
    "length xs = n" "\<forall>x\<in>set xs. 0 \<le> x \<and> x < mx"
    by blast
  have "fill_randomBigInt (Suc n) mx s =
      Inr (be_value (stake (random_bytes mx) s) mod mx # xs, sdrop (Suc n * random_bytes mx) s)"
    using Suc.prems xs(1) by (simp add: randomBigInt_eq add.commute)
  then show ?case using xs(2,3) Suc.prems by simp
qed

lemma map_addNoise_eq:
  "map_addNoise pubs s =
     Inr (map2 (\<lambda>p b. bigint_rem (p + noise_of_byte b + Q) Q) pubs (stake (length pubs) s),
      sdrop (length pubs) s)"
  by (induction pubs arbitrary: s) (simp_all add: addNoise_eq)

lemma map_index_public_at:
  "i + length xs \<le> length G \<Longrightarrow>
   map_index (public_at G) i xs = Inr (map2 (\<lambda>g x. bigint_rem (g * x) Q) (drop i G) xs)"
proof (induction xs arbitrary: i)
  case Nil
  show ?case by simp
next
  case (Cons x xs)
  then have i: "i < length G" and le: "Suc i + length xs \<le> length G" by simp_all
  have d: "drop i G = G ! i # drop (Suc i) G" using i by (simp add: Cons_nth_drop_Suc)
  show ?case using Cons.IH [OF le] i by (simp add: public_at_def d)
qed

lemma map_index_shared_at:
  "i + length xs \<le> length S \<Longrightarrow>
   map_index (shared_at S) i xs = Inr (map2 (\<lambda>p a. bigint_rem (p * a) Q) xs (drop i S))"
proof (induction xs arbitrary: i)
  case Nil
  show ?case by simp
next
  case (Cons x xs)
  then have i: "i < length S" and le: "Suc i + length xs \<le> length S" by simp_all
  have d: "drop i S = S ! i # drop (Suc i) S" using i by (simp add: Cons_nth_drop_Suc)
  show ?case using Cons.IH [OF le] i by (simp add: shared_at_def d)
qed

lemma clarity_unfold:
  assumes G: "fill_randomBigInt NUM_BITS Q s0 = Inr (G, s1)" "length G = NUM_BITS"
    and aS: "fill_randomBigInt NUM_BITS SECRET_MAX s1 = Inr (aS, s2)" "length aS = NUM_BITS"
    and bS: "fill_randomBigInt NUM_BITS SECRET_MAX (sdrop NUM_BITS s2) = Inr (bS, s4)"
      "length bS = NUM_BITS"
  shows "clarity s0 =
     Inr \<lparr>G_ARRAY = G, aliceSecrets = aS,
          alicePublics = map2 (\<lambda>g x. bigint_rem (g * x) Q) G aS,
          alicePublicsNoisy = map2 (\<lambda>p b. bigint_rem (p + noise_of_byte b + Q) Q)
            (map2 (\<lambda>g x. bigint_rem (g * x) Q) G aS) (stake NUM_BITS s2),
          bobSecrets = bS,
          bobPublics = map2 (\<lambda>g x. bigint_rem (g * x) Q) G bS,
          bobPublicsNoisy = map2 (\<lambda>p b. bigint_rem (p + noise_of_byte b + Q) Q)
            (map2 (\<lambda>g x. bigint_rem (g * x) Q) G bS) (stake NUM_BITS s4),
          sharedAlice = map2 (\<lambda>p a. bigint_rem (p * a) Q)
            (map2 (\<lambda>p b. bigint_rem (p + noise_of_byte b + Q) Q)
              (map2 (\<lambda>g x. bigint_rem (g * x) Q) G bS) (stake NUM_BITS s4)) aS,
          sharedBob = map2 (\<lambda>p a. bigint_rem (p * a) Q)
            (map2 (\<lambda>p b. bigint_rem (p + noise_of_byte b + Q) Q)
              (map2 (\<lambda>g x. bigint_rem (g * x) Q) G aS) (stake NUM_BITS s2)) bS,
          keyAlice = map extract_bit (map2 (\<lambda>p a. bigint_rem (p * a) Q)
            (map2 (\<lambda>p b. bigint_rem (p + noise_of_byte b + Q) Q)
              (map2 (\<lambda>g x. bigint_rem (g * x) Q) G bS) (stake NUM_BITS s4)) aS),
          keyBob = map extract_bit (map2 (\<lambda>p a. bigint_rem (p * a) Q)
            (map2 (\<lambda>p b. bigint_rem (p + noise_of_byte b + Q) Q)
              (map2 (\<lambda>g x. bigint_rem (g * x) Q) G aS) (stake NUM_BITS s2)) bS),
          keyAliceBigInt = bitsToBigInt (map extract_bit (map2 (\<lambda>p a. bigint_rem (p * a) Q)
            (map2 (\<lambda>p b. bigint_rem (p + noise_of_byte b + Q) Q)
              (map2 (\<lambda>g x. bigint_rem (g * x) Q) G bS) (stake NUM_BITS s4)) aS)),
          keyBobBigInt = bitsToBigInt (map extract_bit (map2 (\<lambda>p a. bigint_rem (p * a) Q)
            (map2 (\<lambda>p b. bigint_rem (p + noise_of_byte b + Q) Q)
              (map2 (\<lambda>g x. bigint_rem (g * x) Q) G aS) (stake NUM_BITS s2)) bS))\<rparr>"
  using assms
  by (simp add: clarity_def map_addNoise_eq map_index_public_at map_index_shared_at Let_def)

lemma map2_rem_mul:
  assumes "\<forall>x\<in>set xs. 0 \<le> x" "\<forall>y\<in>set ys. 0 \<le> y"
  shows "map2 (\<lambda>p a. bigint_rem (p * a) Q) xs ys = map2 (\<lambda>p a. (p * a) mod Q) xs ys"
proof (rule map_cong [OF refl])
  fix z assume z: "z \<in> set (zip xs ys)"
  obtain p a where pa: "z = (p, a)" by (cases z)
  from z have "p \<in> set xs" "a \<in> set ys"
    unfolding pa by (rule set_zip_leftD, rule set_zip_rightD)
  with assms have "0 \<le> p * a" by simp
  then show "(case z of (p, a) \<Rightarrow> bigint_rem (p * a) Q) = (case z of (p, a) \<Rightarrow> (p * a) mod Q)"
    using Q_pos by (simp add: pa bigint_rem_nonneg)
qed

lemma map2_rem_noise:
  assumes "\<forall>x\<in>set xs. 0 \<le> x"
  shows "map2 (\<lambda>p b. bigint_rem (p + noise_of_byte b + Q) Q) xs bs =
         map2 (\<lambda>p b. (p + noise_of_byte b + Q) mod Q) xs bs"
proof (rule map_cong [OF refl])
  fix z assume z: "z \<in> set (zip xs bs)"
  obtain p b where pb: "z = (p, b)" by (cases z)
  from z have "p \<in> set xs" unfolding pb by (rule set_zip_leftD)
  with assms have "0 \<le> p" by simp
  moreover have "noise_of_byte b \<in> {-1, 0, 1}" by (rule noise_of_byte_range)
  ultimately have "0 \<le> p + noise_of_byte b + Q" using Q_pos by auto
  then show "(case z of (p, b) \<Rightarrow> bigint_rem (p + noise_of_byte b + Q) Q) =
             (case z of (p, b) \<Rightarrow> (p + noise_of_byte b + Q) mod Q)"
    using Q_pos by (simp add: pb bigint_rem_nonneg)
qed

lemma map2_mod_Q_range: "\<forall>x\<in>set (map2 (\<lambda>p a. f p a mod Q) xs ys). 0 \<le> x \<and> x < Q"
proof
  fix x assume "x \<in> set (map2 (\<lambda>p a. f p a mod Q) xs ys)"
  then obtain z where "x = (case z of (p, a) \<Rightarrow> f p a mod Q)" by auto
  then show "0 \<le> x \<and> x < Q" using Q_pos by (cases z) simp
qed

lemma map2_mod_Q_nonneg: "\<forall>x\<in>set (map2 (\<lambda>p a. f p a mod Q) xs ys). 0 \<le> x"
  using map2_mod_Q_range [of f xs ys] by blast

lemma clarity_run:
  obtains r where
    "clarity s = Inr r"
    "length (G_ARRAY r) = NUM_BITS" "length (aliceSecrets r) = NUM_BITS"
    "length (bobSecrets r) = NUM_BITS"
    "\<forall>x\<in>set (G_ARRAY r). 0 \<le> x \<and> x < Q"
    "\<forall>x\<in>set (aliceSecrets r). 0 \<le> x \<and> x < SECRET_MAX"
    "\<forall>x\<in>set (bobSecrets r). 0 \<le> x \<and> x < SECRET_MAX"
    "alicePublics r = map2 (\<lambda>g x. (g * x) mod Q) (G_ARRAY r) (aliceSecrets r)"
    "bobPublics r = map2 (\<lambda>g x. (g * x) mod Q) (G_ARRAY r) (bobSecrets r)"
    "alicePublicsNoisy r =
       map2 (\<lambda>p b. (p + noise_of_byte b + Q) mod Q) (alicePublics r) (aliceNoiseBytes s)"
    "bobPublicsNoisy r =
       map2 (\<lambda>p b. (p + noise_of_byte b + Q) mod Q) (bobPublics r) (bobNoiseBytes s)"
    "sharedAlice r = map2 (\<lambda>p a. (p * a) mod Q) (bobPublicsNoisy r) (aliceSecrets r)"
    "sharedBob r = map2 (\<lambda>p a. (p * a) mod Q) (alicePublicsNoisy r) (bobSecrets r)"
    "keyAlice r = map extract_bit (sharedAlice r)"
    "keyBob r = map extract_bit (sharedBob r)"
    "keyAliceBigInt r = bitsToBigInt (keyAlice r)"
    "keyBobBigInt r = bitsToBigInt (keyBob r)"
proof -
  define s1 where "s1 = sdrop (NUM_BITS * random_bytes Q) s"
  define s2 where "s2 = sdrop (NUM_BITS * random_bytes SECRET_MAX) s1"
  define s4 where "s4 = sdrop (NUM_BITS * random_bytes SECRET_MAX) (sdrop NUM_BITS s2)"
  obtain G where G: "fill_randomBigInt NUM_BITS Q s = Inr (G, s1)" "length G = NUM_BITS"
    "\<forall>x\<in>set G. 0 \<le> x \<and> x < Q"
    using fill_randomBigInt_run [OF Q_pos Q_quota, of NUM_BITS s] unfolding s1_def by blast
  obtain aS where aS: "fill_randomBigInt NUM_BITS SECRET_MAX s1 = Inr (aS, s2)"
    "length aS = NUM_BITS" "\<forall>x\<in>set aS. 0 \<le> x \<and> x < SECRET_MAX"
    using fill_randomBigInt_run [OF SECRET_MAX_pos SECRET_MAX_quota, of NUM_BITS s1] unfolding s2_def by blast
  obtain bS where bS: "fill_randomBigInt NUM_BITS SECRET_MAX (sdrop NUM_BITS s2) = Inr (bS, s4)"
    "length bS = NUM_BITS" "\<forall>x\<in>set bS. 0 \<le> x \<and> x < SECRET_MAX"
    using fill_randomBigInt_run [OF SECRET_MAX_pos SECRET_MAX_quota, of NUM_BITS "sdrop NUM_BITS s2"]
    unfolding s4_def by blast
  have nA: "stake NUM_BITS s2 = aliceNoiseBytes s"
    by (simp add: s2_def s1_def aliceNoiseBytes_def)
  have nB: "stake NUM_BITS s4 = bobNoiseBytes s"
    by (simp add: s4_def s2_def s1_def bobNoiseBytes_def)
  have G0: "\<forall>x\<in>set G. 0 \<le> x" and a0: "\<forall>x\<in>set aS. 0 \<le> x" and b0: "\<forall>x\<in>set bS. 0 \<le> x"
    using G(3) aS(3) bS(3) by simp_all
  define aP where "aP = map2 (\<lambda>g x. (g * x) mod Q) G aS"
  define bP where "bP = map2 (\<lambda>g x. (g * x) mod Q) G bS"
  define aPN where "aPN = map2 (\<lambda>p b. (p + noise_of_byte b + Q) mod Q) aP (aliceNoiseBytes s)"
  define bPN where "bPN = map2 (\<lambda>p b. (p + noise_of_byte b + Q) mod Q) bP (bobNoiseBytes s)"
  have aP: "map2 (\<lambda>g x. bigint_rem (g * x) Q) G aS = aP"
    unfolding aP_def by (rule map2_rem_mul [OF G0 a0])
  have bP: "map2 (\<lambda>g x. bigint_rem (g * x) Q) G bS = bP"
    unfolding bP_def by (rule map2_rem_mul [OF G0 b0])
  have aP0: "\<forall>x\<in>set aP. 0 \<le> x" and bP0: "\<forall>x\<in>set bP. 0 \<le> x"
    unfolding aP_def bP_def by (rule map2_mod_Q_nonneg)+
  have aPN: "map2 (\<lambda>p b. bigint_rem (p + noise_of_byte b + Q) Q) aP (aliceNoiseBytes s) = aPN"
    unfolding aPN_def by (rule map2_rem_noise [OF aP0])
  have bPN: "map2 (\<lambda>p b. bigint_rem (p + noise_of_byte b + Q) Q) bP (bobNoiseBytes s) = bPN"
    unfolding bPN_def by (rule map2_rem_noise [OF bP0])
  have aPN0: "\<forall>x\<in>set aPN. 0 \<le> x" and bPN0: "\<forall>x\<in>set bPN. 0 \<le> x"
    unfolding aPN_def bPN_def by (rule map2_mod_Q_nonneg)+
  have shA: "map2 (\<lambda>p a. bigint_rem (p * a) Q) bPN aS = map2 (\<lambda>p a. (p * a) mod Q) bPN aS"
    by (rule map2_rem_mul [OF bPN0 a0])
  have shB: "map2 (\<lambda>p a. bigint_rem (p * a) Q) aPN bS = map2 (\<lambda>p a. (p * a) mod Q) aPN bS"
    by (rule map2_rem_mul [OF aPN0 b0])
  note run = clarity_unfold [OF G(1,2) aS(1,2) bS(1,2), unfolded nA nB aP bP aPN bPN shA shB]
  show thesis
    by (rule that [OF run]) (simp_all add: G aS bS aP_def bP_def aPN_def bPN_def)
qed

lemma nth_map2: "i < length xs \<Longrightarrow> i < length ys \<Longrightarrow> map2 f xs ys ! i = f (xs ! i) (ys ! i)"
  by simp

lemma length_aliceNoiseBytes: "length (aliceNoiseBytes s) = NUM_BITS"
  by (simp add: aliceNoiseBytes_def)

lemma length_bobNoiseBytes: "length (bobNoiseBytes s) = NUM_BITS"
  by (simp add: bobNoiseBytes_def)

lemma clarity_at:
  assumes i: "i < NUM_BITS"
  obtains r where
    "clarity s = Inr r"
    "0 \<le> G_ARRAY r ! i" "G_ARRAY r ! i < Q"
    "0 \<le> aliceSecrets r ! i" "aliceSecrets r ! i < SECRET_MAX"
    "0 \<le> bobSecrets r ! i" "bobSecrets r ! i < SECRET_MAX"
    "alicePublics r ! i = (G_ARRAY r ! i * aliceSecrets r ! i) mod Q"
    "bobPublics r ! i = (G_ARRAY r ! i * bobSecrets r ! i) mod Q"
    "alicePublicsNoisy r ! i = (alicePublics r ! i + noise_of_byte (aliceNoiseBytes s ! i) + Q) mod Q"
    "bobPublicsNoisy r ! i = (bobPublics r ! i + noise_of_byte (bobNoiseBytes s ! i) + Q) mod Q"
    "sharedAlice r ! i = (bobPublicsNoisy r ! i * aliceSecrets r ! i) mod Q"
    "sharedBob r ! i = (alicePublicsNoisy r ! i * bobSecrets r ! i) mod Q"
    "keyAlice r ! i = extract_bit (sharedAlice r ! i)"
    "keyBob r ! i = extract_bit (sharedBob r ! i)"
proof -
  obtain r where r:
    "clarity s = Inr r"
    "length (G_ARRAY r) = NUM_BITS" "length (aliceSecrets r) = NUM_BITS"
    "length (bobSecrets r) = NUM_BITS"
    "\<forall>x\<in>set (G_ARRAY r). 0 \<le> x \<and> x < Q"
    "\<forall>x\<in>set (aliceSecrets r). 0 \<le> x \<and> x < SECRET_MAX"
    "\<forall>x\<in>set (bobSecrets r). 0 \<le> x \<and> x < SECRET_MAX"
    "alicePublics r = map2 (\<lambda>g x. (g * x) mod Q) (G_ARRAY r) (aliceSecrets r)"
    "bobPublics r = map2 (\<lambda>g x. (g * x) mod Q) (G_ARRAY r) (bobSecrets r)"
    "alicePublicsNoisy r =
       map2 (\<lambda>p b. (p + noise_of_byte b + Q) mod Q) (alicePublics r) (aliceNoiseBytes s)"
    "bobPublicsNoisy r =
       map2 (\<lambda>p b. (p + noise_of_byte b + Q) mod Q) (bobPublics r) (bobNoiseBytes s)"
    "sharedAlice r = map2 (\<lambda>p a. (p * a) mod Q) (bobPublicsNoisy r) (aliceSecrets r)"
    "sharedBob r = map2 (\<lambda>p a. (p * a) mod Q) (alicePublicsNoisy r) (bobSecrets r)"
    "keyAlice r = map extract_bit (sharedAlice r)"
    "keyBob r = map extract_bit (sharedBob r)"
    by (rule clarity_run [of s]) blast
  have lG: "i < length (G_ARRAY r)" and la: "i < length (aliceSecrets r)"
    and lb: "i < length (bobSecrets r)"
    using i r(2-4) by simp_all
  have lnA: "i < length (aliceNoiseBytes s)" and lnB: "i < length (bobNoiseBytes s)"
    using i by (simp_all add: length_aliceNoiseBytes length_bobNoiseBytes)
  have laP: "i < length (alicePublics r)" and lbP: "i < length (bobPublics r)"
    using lG la lb by (simp_all add: r(8,9))
  have laN: "i < length (alicePublicsNoisy r)" and lbN: "i < length (bobPublicsNoisy r)"
    using laP lbP lnA lnB by (simp_all add: r(10,11))
  have lsA: "i < length (sharedAlice r)" and lsB: "i < length (sharedBob r)"
    using laN lbN la lb by (simp_all add: r(12,13))
  have G: "0 \<le> G_ARRAY r ! i \<and> G_ARRAY r ! i < Q" using r(5) lG nth_mem by blast
  have a: "0 \<le> aliceSecrets r ! i \<and> aliceSecrets r ! i < SECRET_MAX"
    using r(6) la nth_mem by blast
  have b: "0 \<le> bobSecrets r ! i \<and> bobSecrets r ! i < SECRET_MAX"
    using r(7) lb nth_mem by blast
  have 1: "alicePublics r ! i = (G_ARRAY r ! i * aliceSecrets r ! i) mod Q"
    unfolding r(8) using lG la by (rule nth_map2)
  have 2: "bobPublics r ! i = (G_ARRAY r ! i * bobSecrets r ! i) mod Q"
    unfolding r(9) using lG lb by (rule nth_map2)
  have 3: "alicePublicsNoisy r ! i =
      (alicePublics r ! i + noise_of_byte (aliceNoiseBytes s ! i) + Q) mod Q"
    by (subst r(10)) (rule nth_map2 [OF laP lnA])
  have 4: "bobPublicsNoisy r ! i =
      (bobPublics r ! i + noise_of_byte (bobNoiseBytes s ! i) + Q) mod Q"
    by (subst r(11)) (rule nth_map2 [OF lbP lnB])
  have 5: "sharedAlice r ! i = (bobPublicsNoisy r ! i * aliceSecrets r ! i) mod Q"
    by (subst r(12)) (rule nth_map2 [OF lbN la])
  have 6: "sharedBob r ! i = (alicePublicsNoisy r ! i * bobSecrets r ! i) mod Q"
    by (subst r(13)) (rule nth_map2 [OF laN lb])
  have 7: "keyAlice r ! i = extract_bit (sharedAlice r ! i)"
    unfolding r(14) using lsA by (rule nth_map)
  have 8: "keyBob r ! i = extract_bit (sharedBob r ! i)"
    unfolding r(15) using lsB by (rule nth_map)
  show thesis
    using that [OF r(1) _ _ _ _ _ _ 1 2 3 4 5 6 7 8] G a b by blast
qed

lemma fill_randomBigInt_chunks:
  "0 < mx \<Longrightarrow> random_bytes mx \<le> 65536 \<Longrightarrow> \<forall>c\<in>set cs. length c = random_bytes mx \<Longrightarrow>
   fill_randomBigInt (length cs) mx (concat cs @- rest) = Inr (map (\<lambda>c. be_value c mod mx) cs, rest)"
proof (induction cs)
  case Nil
  show ?case by simp
next
  case (Cons c cs)
  then have c: "length c = random_bytes mx" and cs: "\<forall>c\<in>set cs. length c = random_bytes mx"
    by simp_all
  have "randomBigInt mx (concat (c # cs) @- rest) = Inr (be_value c mod mx, concat cs @- rest)"
    using Cons.prems(1,2) c by (simp add: randomBigInt_eq stake_shift sdrop_shift)
  then show ?case using Cons.IH [OF Cons.prems(1,2) cs] by simp
qed

lemma clarity_draws:
  assumes gs: "length gs = NUM_BITS" "\<forall>c\<in>set gs. length c = random_bytes Q"
    and sa: "length sa = NUM_BITS" "\<forall>c\<in>set sa. length c = random_bytes SECRET_MAX"
    and na: "length na = NUM_BITS"
    and sb: "length sb = NUM_BITS" "\<forall>c\<in>set sb. length c = random_bytes SECRET_MAX"
    and nb: "length nb = NUM_BITS"
    and G: "G = map (\<lambda>c. be_value c mod Q) gs"
    and aS: "aS = map (\<lambda>c. be_value c mod SECRET_MAX) sa"
    and bS: "bS = map (\<lambda>c. be_value c mod SECRET_MAX) sb"
    and aP: "aP = map2 (\<lambda>g x. bigint_rem (g * x) Q) G aS"
    and bP: "bP = map2 (\<lambda>g x. bigint_rem (g * x) Q) G bS"
    and aPN: "aPN = map2 (\<lambda>p b. bigint_rem (p + noise_of_byte b + Q) Q) aP na"
    and bPN: "bPN = map2 (\<lambda>p b. bigint_rem (p + noise_of_byte b + Q) Q) bP nb"
    and shA: "shA = map2 (\<lambda>p a. bigint_rem (p * a) Q) bPN aS"
    and shB: "shB = map2 (\<lambda>p a. bigint_rem (p * a) Q) aPN bS"
  shows "clarity (draws gs sa na sb nb rest) =
     Inr \<lparr>G_ARRAY = G, aliceSecrets = aS, alicePublics = aP, alicePublicsNoisy = aPN,
          bobSecrets = bS, bobPublics = bP, bobPublicsNoisy = bPN,
          sharedAlice = shA, sharedBob = shB,
          keyAlice = map extract_bit shA, keyBob = map extract_bit shB,
          keyAliceBigInt = bitsToBigInt (map extract_bit shA),
          keyBobBigInt = bitsToBigInt (map extract_bit shB)\<rparr>"
proof -
  have 1: "fill_randomBigInt NUM_BITS Q (draws gs sa na sb nb rest) =
      Inr (G, concat sa @- na @- concat sb @- nb @- rest)"
    unfolding draws_def G gs(1) [symmetric]
    by (rule fill_randomBigInt_chunks [OF Q_pos Q_quota gs(2)])
  have 2: "fill_randomBigInt NUM_BITS SECRET_MAX (concat sa @- na @- concat sb @- nb @- rest) =
      Inr (aS, na @- concat sb @- nb @- rest)"
    unfolding aS sa(1) [symmetric]
    by (rule fill_randomBigInt_chunks [OF SECRET_MAX_pos SECRET_MAX_quota sa(2)])
  have 3: "fill_randomBigInt NUM_BITS SECRET_MAX (concat sb @- nb @- rest) = Inr (bS, nb @- rest)"
    unfolding bS sb(1) [symmetric]
    by (rule fill_randomBigInt_chunks [OF SECRET_MAX_pos SECRET_MAX_quota sb(2)])
  have 4: "sdrop NUM_BITS (na @- concat sb @- nb @- rest) = concat sb @- nb @- rest"
    using na by (simp add: sdrop_shift)
  have 5: "stake NUM_BITS (na @- concat sb @- nb @- rest) = na"
    using na by (simp add: stake_shift)
  have 6: "stake NUM_BITS (nb @- rest) = nb"
    using nb by (simp add: stake_shift)
  have lG: "length G = NUM_BITS" and la: "length aS = NUM_BITS" and lb: "length bS = NUM_BITS"
    by (simp_all add: G aS bS gs sa sb)
  show ?thesis
    using clarity_unfold [OF 1 lG 2 la, of bS "nb @- rest"] 3 lb
    unfolding 4 5 6 aP bP aPN bPN shA shB by simp
qed

lemma length_concat_chunks: "\<forall>c\<in>set cs. length c = k \<Longrightarrow> length (concat cs) = length cs * k"
  by (induction cs) simp_all

lemma noise_bytes_draws:
  assumes gs: "length gs = NUM_BITS" "\<forall>c\<in>set gs. length c = random_bytes Q"
    and sa: "length sa = NUM_BITS" "\<forall>c\<in>set sa. length c = random_bytes SECRET_MAX"
    and na: "length na = NUM_BITS"
    and sb: "length sb = NUM_BITS" "\<forall>c\<in>set sb. length c = random_bytes SECRET_MAX"
    and nb: "length nb = NUM_BITS"
  shows "aliceNoiseBytes (draws gs sa na sb nb rest) = na"
    and "bobNoiseBytes (draws gs sa na sb nb rest) = nb"
proof -
  have lg: "length (concat gs) = NUM_BITS * random_bytes Q"
    using length_concat_chunks [OF gs(2)] gs(1) by simp
  have la: "length (concat sa) = NUM_BITS * random_bytes SECRET_MAX"
    using length_concat_chunks [OF sa(2)] sa(1) by simp
  have lb: "length (concat sb) = NUM_BITS * random_bytes SECRET_MAX"
    using length_concat_chunks [OF sb(2)] sb(1) by simp
  have 1: "sdrop (NUM_BITS * random_bytes Q + NUM_BITS * random_bytes SECRET_MAX)
      (draws gs sa na sb nb rest) = na @- concat sb @- nb @- rest"
    unfolding draws_def sdrop_add [symmetric]
    by (simp add: sdrop_shift lg la)
  show "aliceNoiseBytes (draws gs sa na sb nb rest) = na"
    unfolding aliceNoiseBytes_def 1 using na by (simp add: stake_shift)
  have "sdrop (NUM_BITS * random_bytes Q + NUM_BITS * random_bytes SECRET_MAX
       + NUM_BITS + NUM_BITS * random_bytes SECRET_MAX) (draws gs sa na sb nb rest) =
     sdrop (NUM_BITS * random_bytes SECRET_MAX) (sdrop NUM_BITS
       (sdrop (NUM_BITS * random_bytes Q + NUM_BITS * random_bytes SECRET_MAX)
          (draws gs sa na sb nb rest)))"
    by (simp add: add.assoc)
  also have "\<dots> = nb @- rest"
    unfolding 1 using na lb by (simp add: sdrop_shift)
  finally show "bobNoiseBytes (draws gs sa na sb nb rest) = nb"
    unfolding bobNoiseBytes_def using nb by (simp add: stake_shift)
qed

lemma be_value_replicate_0: "be_value (replicate n 0) = 0"
  by (induction n) (simp_all add: be_value_def)

lemma be_value_secret: "be_value [0, 0, 0, 0, 0, b] = uint b"
  by (simp add: be_value_def)

lemma bitsToBigInt_replicate_0: "bitsToBigInt (replicate n 0) = 0"
  by (induction n) (simp_all add: bitsToBigInt_def)

lemma bitsToBigInt_replicate_1: "bitsToBigInt (replicate n 1) = 2 ^ n - 1"
proof (induction n)
  case 0
  show ?case by (simp add: bitsToBigInt_Nil)
next
  case (Suc n)
  have "bitsToBigInt (replicate (Suc n) 1) = bitsToBigInt (replicate n 1 @ [1])"
    by (simp only: replicate_append_same replicate_Suc)
  also have "\<dots> = 2 * bitsToBigInt (replicate n 1) + 1"
    by (rule bitsToBigInt_snoc) simp
  finally show ?case using Suc by simp
qed

lemma rem_Q_small: "bigint_rem 0 Q = 0" "bigint_rem Q Q = 0" "bigint_rem (Q - 1) Q = Q - 1"
  by (simp_all add: bigint_rem_def Q_def)

lemma extract_bit_ends: "extract_bit 0 = 0" "extract_bit (Q - 1) = 1"
  by (simp add: extract_bit_def) (subst extract_bit_cases, simp_all add: Q_def)

lemma clarity_mismatch_draws:
  "clarity mismatch_draws =
     Inr \<lparr>G_ARRAY = replicate 256 0, aliceSecrets = replicate 256 1,
          alicePublics = replicate 256 0, alicePublicsNoisy = replicate 256 (Q - 1),
          bobSecrets = replicate 256 1, bobPublics = replicate 256 0,
          bobPublicsNoisy = replicate 256 0,
          sharedAlice = replicate 256 0, sharedBob = replicate 256 (Q - 1),
          keyAlice = replicate 256 0, keyBob = replicate 256 1,
          keyAliceBigInt = 0, keyBobBigInt = 2 ^ 256 - 1\<rparr>"
proof -
  have Q1: "(1::int) < Q" "(1::int) < SECRET_MAX" by (simp_all add: Q_def SECRET_MAX_def)
  show ?thesis
    unfolding mismatch_draws_def
    by (subst clarity_draws [OF _ _ _ _ _ _ _ _ refl refl refl refl refl refl refl refl refl])
      (simp_all add: NUM_BITS_def random_bytes_Q random_bytes_SECRET_MAX be_value_replicate_0
        be_value_secret noise_realised rem_Q_small extract_bit_ends Q1
        bitsToBigInt_replicate_0 bitsToBigInt_replicate_1)
qed

lemma clarity_draws_inputs:
  assumes gs: "length gs = NUM_BITS" "\<forall>c\<in>set gs. length c = random_bytes Q"
    and sa: "length sa = NUM_BITS" "\<forall>c\<in>set sa. length c = random_bytes SECRET_MAX"
    and na: "length na = NUM_BITS"
    and sb: "length sb = NUM_BITS" "\<forall>c\<in>set sb. length c = random_bytes SECRET_MAX"
    and nb: "length nb = NUM_BITS"
  obtains r where "clarity (draws gs sa na sb nb rest) = Inr r"
    "G_ARRAY r = map (\<lambda>c. be_value c mod Q) gs"
    "aliceSecrets r = map (\<lambda>c. be_value c mod SECRET_MAX) sa"
    "bobSecrets r = map (\<lambda>c. be_value c mod SECRET_MAX) sb"
proof -
  note run = clarity_draws [OF assms refl refl refl refl refl refl refl refl refl, of rest]
  show thesis by (rule that [OF run]) simp_all
qed

lemma variant_draws_inputs:
  obtains r where "clarity variant_draws = Inr r"
    "G_ARRAY r ! 0 = 0" "aliceSecrets r ! 0 = 1" "bobSecrets r ! 0 = 1"
    "G_ARRAY r ! 1 = 7" "aliceSecrets r ! 1 = 3"
    "aliceNoiseBytes variant_draws ! 0 = 0" "bobNoiseBytes variant_draws ! 0 = 1"
proof -
  have l: "length (replicate 32 0 # replicate 255 (replicate 31 0 @ [7::uint8])) = NUM_BITS"
    "\<forall>c\<in>set (replicate 32 0 # replicate 255 (replicate 31 0 @ [7::uint8])).
       length c = random_bytes Q"
    "length ([0, 0, 0, 0, 0, 1] # replicate 255 [0, 0, 0, 0, 0, 3::uint8]) = NUM_BITS"
    "\<forall>c\<in>set ([0, 0, 0, 0, 0, 1] # replicate 255 [0, 0, 0, 0, 0, 3::uint8]).
       length c = random_bytes SECRET_MAX"
    "length (0 # replicate 255 (2::uint8)) = NUM_BITS"
    "length (replicate 256 [0, 0, 0, 0, 0, 1::uint8]) = NUM_BITS"
    "\<forall>c\<in>set (replicate 256 [0, 0, 0, 0, 0, 1::uint8]). length c = random_bytes SECRET_MAX"
    "length (1 # replicate 255 (0::uint8)) = NUM_BITS"
    by (simp_all add: NUM_BITS_def random_bytes_Q random_bytes_SECRET_MAX)
  have Q1: "(7::int) mod Q = 7" "(1::int) mod SECRET_MAX = 1" "(3::int) mod SECRET_MAX = 3"
    by (simp_all add: Q_def SECRET_MAX_def)
  have b7: "be_value (replicate 31 0 @ [7]) = 7"
    by (simp add: be_value_snoc be_value_replicate_0)
  obtain r where r: "clarity variant_draws = Inr r"
    "G_ARRAY r = map (\<lambda>c. be_value c mod Q) (replicate 32 0 # replicate 255 (replicate 31 0 @ [7]))"
    "aliceSecrets r = map (\<lambda>c. be_value c mod SECRET_MAX)
       ([0, 0, 0, 0, 0, 1] # replicate 255 [0, 0, 0, 0, 0, 3])"
    "bobSecrets r = map (\<lambda>c. be_value c mod SECRET_MAX) (replicate 256 [0, 0, 0, 0, 0, 1])"
    unfolding variant_draws_def by (rule clarity_draws_inputs [OF l])
  have n: "aliceNoiseBytes variant_draws = 0 # replicate 255 2"
    "bobNoiseBytes variant_draws = 1 # replicate 255 0"
    unfolding variant_draws_def by (rule noise_bytes_draws [OF l])+
  show thesis
    by (rule that [OF r(1)])
      (simp_all add: r(2-4) n be_value_replicate_0 be_value_secret b7 Q1)
qed

lemma mismatch_draws_noise:
  "aliceNoiseBytes mismatch_draws = replicate 256 0" "bobNoiseBytes mismatch_draws = replicate 256 1"
  unfolding mismatch_draws_def
  by (rule noise_bytes_draws;
      simp add: NUM_BITS_def random_bytes_Q random_bytes_SECRET_MAX)+

subsection \<open>Key agreement\<close>

text \<open>
  Claim C1 fails on the script. When every basis is 0, every secret is 1, Alice's noise
  bytes are 0 (noise \<open>-1\<close>) and Bob's are 1 (noise \<open>0\<close>), Alice's noisy public values
  wrap to \<open>Q - 1\<close> and Bob's stay 0: Alice derives the key bit 0 and Bob the key bit 1 in
  every dimension, so the keys are \<open>0\<close> and \<open>2 ^ 256 - 1\<close>.
\<close>

theorem keys_mismatch:
  "map_sum id keyAlice (clarity mismatch_draws) = Inr (replicate 256 0) \<and>
   map_sum id keyBob (clarity mismatch_draws) = Inr (replicate 256 1) \<and>
   map_sum id keyAliceBigInt (clarity mismatch_draws) = Inr 0 \<and>
   map_sum id keyBobBigInt (clarity mismatch_draws) = Inr (2 ^ 256 - 1)"
  by (simp add: clarity_mismatch_draws)

subsection \<open>The derivations, dimension by dimension\<close>

text \<open>
  Claim C2. In every run and every dimension \<open>i\<close>, each party's public value is
  \<open>G_ARRAY[i] * secret[i] mod Q\<close> and each party's shared value is the other party's noisy
  public value of dimension \<open>i\<close> times the own secret of dimension \<open>i\<close>, modulo \<open>Q\<close>: a
  function of the entries of dimension \<open>i\<close> alone.
\<close>

theorem public_and_shared_elementwise:
  "i < NUM_BITS \<Longrightarrow>
   \<exists>r. clarity s = Inr r \<and>
     alicePublics r ! i = (G_ARRAY r ! i * aliceSecrets r ! i) mod Q \<and>
     bobPublics r ! i = (G_ARRAY r ! i * bobSecrets r ! i) mod Q \<and>
     sharedAlice r ! i = (bobPublicsNoisy r ! i * aliceSecrets r ! i) mod Q \<and>
     sharedBob r ! i = (alicePublicsNoisy r ! i * bobSecrets r ! i) mod Q"
proof -
  assume "i < NUM_BITS"
  then obtain r where
    "clarity s = Inr r"
    "alicePublics r ! i = (G_ARRAY r ! i * aliceSecrets r ! i) mod Q"
    "bobPublics r ! i = (G_ARRAY r ! i * bobSecrets r ! i) mod Q"
    "sharedAlice r ! i = (bobPublicsNoisy r ! i * aliceSecrets r ! i) mod Q"
    "sharedBob r ! i = (alicePublicsNoisy r ! i * bobSecrets r ! i) mod Q"
    by (rule clarity_at [of i s]) blast
  then show ?thesis by blast
qed

theorem public_and_shared_elementwise_witness:
  "(0::nat) < NUM_BITS \<and>
   (\<exists>r. clarity (sconst 0) = Inr r \<and>
     alicePublics r ! 0 = (G_ARRAY r ! 0 * aliceSecrets r ! 0) mod Q \<and>
     bobPublics r ! 0 = (G_ARRAY r ! 0 * bobSecrets r ! 0) mod Q \<and>
     sharedAlice r ! 0 = (bobPublicsNoisy r ! 0 * aliceSecrets r ! 0) mod Q \<and>
     sharedBob r ! 0 = (alicePublicsNoisy r ! 0 * bobSecrets r ! 0) mod Q)"
  using public_and_shared_elementwise [of 0 "sconst 0"] by (simp add: NUM_BITS_def)

text \<open>
  Claim C9. Two runs that agree in dimension \<open>i\<close> on the basis, on both secrets and on
  both noise values derive the same key bit \<open>i\<close> on each side, whatever they draw in the
  other dimensions.
\<close>

theorem key_bit_noninterference:
  assumes "clarity s1 = Inr r1" and "clarity s2 = Inr r2" and "i < NUM_BITS"
    and "G_ARRAY r1 ! i = G_ARRAY r2 ! i"
    and "aliceSecrets r1 ! i = aliceSecrets r2 ! i"
    and "bobSecrets r1 ! i = bobSecrets r2 ! i"
    and "noise_of_byte (aliceNoiseBytes s1 ! i) = noise_of_byte (aliceNoiseBytes s2 ! i)"
    and "noise_of_byte (bobNoiseBytes s1 ! i) = noise_of_byte (bobNoiseBytes s2 ! i)"
  shows "keyAlice r1 ! i = keyAlice r2 ! i \<and> keyBob r1 ! i = keyBob r2 ! i"
proof -
  have key: "keyAlice r ! i =
        extract_bit ((((G_ARRAY r ! i * bobSecrets r ! i) mod Q
          + noise_of_byte (bobNoiseBytes s ! i) + Q) mod Q * aliceSecrets r ! i) mod Q) \<and>
      keyBob r ! i =
        extract_bit ((((G_ARRAY r ! i * aliceSecrets r ! i) mod Q
          + noise_of_byte (aliceNoiseBytes s ! i) + Q) mod Q * bobSecrets r ! i) mod Q)"
    if "clarity s = Inr r" for s r
  proof -
    obtain r' where r':
      "clarity s = Inr r'"
      "alicePublics r' ! i = (G_ARRAY r' ! i * aliceSecrets r' ! i) mod Q"
      "bobPublics r' ! i = (G_ARRAY r' ! i * bobSecrets r' ! i) mod Q"
      "alicePublicsNoisy r' ! i =
         (alicePublics r' ! i + noise_of_byte (aliceNoiseBytes s ! i) + Q) mod Q"
      "bobPublicsNoisy r' ! i =
         (bobPublics r' ! i + noise_of_byte (bobNoiseBytes s ! i) + Q) mod Q"
      "sharedAlice r' ! i = (bobPublicsNoisy r' ! i * aliceSecrets r' ! i) mod Q"
      "sharedBob r' ! i = (alicePublicsNoisy r' ! i * bobSecrets r' ! i) mod Q"
      "keyAlice r' ! i = extract_bit (sharedAlice r' ! i)"
      "keyBob r' ! i = extract_bit (sharedBob r' ! i)"
      by (rule clarity_at [OF assms(3), of s]) blast
    from r'(1) that have "r' = r" by simp
    with r'(2-9) show ?thesis by simp
  qed
  show ?thesis
    using key [OF assms(1)] key [OF assms(2)] assms(4-8) by simp
qed

theorem key_bit_noninterference_witness:
  "\<exists>r1 r2. clarity mismatch_draws = Inr r1 \<and> clarity variant_draws = Inr r2 \<and>
     (0::nat) < NUM_BITS \<and>
     G_ARRAY r1 ! 1 \<noteq> G_ARRAY r2 ! 1 \<and> aliceSecrets r1 ! 1 \<noteq> aliceSecrets r2 ! 1 \<and>
     G_ARRAY r1 ! 0 = G_ARRAY r2 ! 0 \<and> aliceSecrets r1 ! 0 = aliceSecrets r2 ! 0 \<and>
     bobSecrets r1 ! 0 = bobSecrets r2 ! 0 \<and>
     noise_of_byte (aliceNoiseBytes mismatch_draws ! 0) =
       noise_of_byte (aliceNoiseBytes variant_draws ! 0) \<and>
     noise_of_byte (bobNoiseBytes mismatch_draws ! 0) =
       noise_of_byte (bobNoiseBytes variant_draws ! 0) \<and>
     keyAlice r1 ! 0 = keyAlice r2 ! 0 \<and> keyBob r1 ! 0 = keyBob r2 ! 0"
proof -
  obtain r2 where r2: "clarity variant_draws = Inr r2"
    "G_ARRAY r2 ! 0 = 0" "aliceSecrets r2 ! 0 = 1" "bobSecrets r2 ! 0 = 1"
    "G_ARRAY r2 ! 1 = 7" "aliceSecrets r2 ! 1 = 3"
    "aliceNoiseBytes variant_draws ! 0 = 0" "bobNoiseBytes variant_draws ! 0 = 1"
    by (rule variant_draws_inputs)
  have i: "(0::nat) < NUM_BITS" by (simp add: NUM_BITS_def)
  note r1 = clarity_mismatch_draws
  have "keyAlice r ! 0 = keyAlice r2 ! 0 \<and> keyBob r ! 0 = keyBob r2 ! 0"
    if "clarity mismatch_draws = Inr r" for r
    using that r1
    by (intro key_bit_noninterference [OF that r2(1) i])
      (auto simp: r2 mismatch_draws_noise)
  with r1 r2 i show ?thesis
    by (simp add: mismatch_draws_noise)
qed

subsection \<open>The residue range\<close>

text \<open>
  Claim C10. In every run, all 256 public values, noisy public values and shared values of
  both parties lie in \<open>[0, Q)\<close>. Perturbing the value 0 with the noise \<open>-1\<close> gives
  \<open>Q - 1\<close>, whose most significant bit is 1 while that of 0 is 0; and there is a run in
  which a noisy public value and its noiseless public value differ in that bit.
\<close>

theorem exchange_values_in_range:
  "\<exists>r. clarity s = Inr r \<and>
     length (alicePublics r) = NUM_BITS \<and> length (alicePublicsNoisy r) = NUM_BITS \<and>
     length (sharedAlice r) = NUM_BITS \<and> length (bobPublics r) = NUM_BITS \<and>
     length (bobPublicsNoisy r) = NUM_BITS \<and> length (sharedBob r) = NUM_BITS \<and>
     (\<forall>x \<in> set (alicePublics r) \<union> set (alicePublicsNoisy r) \<union> set (sharedAlice r)
          \<union> set (bobPublics r) \<union> set (bobPublicsNoisy r) \<union> set (sharedBob r).
        0 \<le> x \<and> x < Q) \<and>
     (noise_of_byte (shd t) = -1 \<longrightarrow>
        addNoise 0 t = Inr (Q - 1, stl t) \<and> extract_bit 0 = 0 \<and> extract_bit (Q - 1) = 1) \<and>
     (\<exists>s' r'. clarity s' = Inr r' \<and>
        extract_bit (alicePublics r' ! 0) = 0 \<and> extract_bit (alicePublicsNoisy r' ! 0) = 1)"
proof -
  obtain r where r:
    "clarity s = Inr r"
    "length (G_ARRAY r) = NUM_BITS" "length (aliceSecrets r) = NUM_BITS"
    "length (bobSecrets r) = NUM_BITS"
    "alicePublics r = map2 (\<lambda>g x. (g * x) mod Q) (G_ARRAY r) (aliceSecrets r)"
    "bobPublics r = map2 (\<lambda>g x. (g * x) mod Q) (G_ARRAY r) (bobSecrets r)"
    "alicePublicsNoisy r =
       map2 (\<lambda>p b. (p + noise_of_byte b + Q) mod Q) (alicePublics r) (aliceNoiseBytes s)"
    "bobPublicsNoisy r =
       map2 (\<lambda>p b. (p + noise_of_byte b + Q) mod Q) (bobPublics r) (bobNoiseBytes s)"
    "sharedAlice r = map2 (\<lambda>p a. (p * a) mod Q) (bobPublicsNoisy r) (aliceSecrets r)"
    "sharedBob r = map2 (\<lambda>p a. (p * a) mod Q) (alicePublicsNoisy r) (bobSecrets r)"
    by (rule clarity_run [of s]) blast
  have len: "length (alicePublics r) = NUM_BITS" "length (bobPublics r) = NUM_BITS"
    by (simp_all add: r(5,6) r(2-4))
  have len2: "length (alicePublicsNoisy r) = NUM_BITS" "length (bobPublicsNoisy r) = NUM_BITS"
    by (simp_all add: r(7,8) len length_aliceNoiseBytes length_bobNoiseBytes)
  have len3: "length (sharedAlice r) = NUM_BITS" "length (sharedBob r) = NUM_BITS"
    by (simp_all add: r(9,10) len2 r(3,4))
  have rng: "\<forall>x\<in>set (alicePublics r). 0 \<le> x \<and> x < Q"
    "\<forall>x\<in>set (bobPublics r). 0 \<le> x \<and> x < Q"
    "\<forall>x\<in>set (alicePublicsNoisy r). 0 \<le> x \<and> x < Q"
    "\<forall>x\<in>set (bobPublicsNoisy r). 0 \<le> x \<and> x < Q"
    "\<forall>x\<in>set (sharedAlice r). 0 \<le> x \<and> x < Q"
    "\<forall>x\<in>set (sharedBob r). 0 \<le> x \<and> x < Q"
    unfolding r(5-10) by (rule map2_mod_Q_range)+
  have wrap: "addNoise 0 t = Inr (Q - 1, stl t) \<and> extract_bit 0 = 0 \<and> extract_bit (Q - 1) = 1"
    if "noise_of_byte (shd t) = -1"
  proof -
    have a: "addNoise 0 t = Inr ((0 + noise_of_byte (shd t) + Q) mod Q, stl t)"
      using Q_pos by (intro addNoise_range) simp_all
    have "(0 + noise_of_byte (shd t) + Q) mod Q = (Q - 1) mod Q" using that by simp
    also have "\<dots> = Q - 1" by (rule mod_pos_pos_trivial) (simp_all add: Q_def)
    finally have "(0 + noise_of_byte (shd t) + Q) mod Q = Q - 1" .
    with a have e: "addNoise 0 t = Inr (Q - 1, stl t)" by simp
    have "extract_bit 0 = 0" by (simp add: extract_bit_def)
    moreover have "extract_bit (Q - 1) = 1"
      by (subst extract_bit_cases) (simp_all add: Q_def)
    ultimately show ?thesis using e by simp
  qed
  from rng have "\<forall>x \<in> set (alicePublics r) \<union> set (alicePublicsNoisy r) \<union> set (sharedAlice r)
          \<union> set (bobPublics r) \<union> set (bobPublicsNoisy r) \<union> set (sharedBob r).
        0 \<le> x \<and> x < Q"
    by blast
  moreover have "\<exists>s' r'. clarity s' = Inr r' \<and>
      extract_bit (alicePublics r' ! 0) = 0 \<and> extract_bit (alicePublicsNoisy r' ! 0) = 1"
    by (intro exI [of _ mismatch_draws] exI conjI, rule clarity_mismatch_draws)
      (simp_all add: extract_bit_ends)
  ultimately show ?thesis using r(1) len len2 len3 wrap by blast
qed

theorem exchange_values_in_range_witness:
  "noise_of_byte (shd (sconst 0)) = -1 \<and> addNoise 0 (sconst 0) = Inr (Q - 1, sconst 0) \<and>
   extract_bit (Q - 1) = 1 \<and>
   (\<exists>r. clarity (sconst 0) = Inr r \<and> length (alicePublicsNoisy r) = NUM_BITS \<and>
      0 \<le> alicePublicsNoisy r ! 0 \<and> alicePublicsNoisy r ! 0 < Q)"
proof -
  have n: "noise_of_byte (shd (sconst 0)) = -1" by (simp add: noise_realised)
  from exchange_values_in_range [of "sconst 0" "sconst 0"] obtain r where r:
    "clarity (sconst 0) = Inr r" "length (alicePublicsNoisy r) = NUM_BITS"
    "\<forall>x \<in> set (alicePublics r) \<union> set (alicePublicsNoisy r) \<union> set (sharedAlice r)
          \<union> set (bobPublics r) \<union> set (bobPublicsNoisy r) \<union> set (sharedBob r).
        0 \<le> x \<and> x < Q"
    "noise_of_byte (shd (sconst 0)) = -1 \<longrightarrow>
        addNoise 0 (sconst 0) = Inr (Q - 1, stl (sconst 0)) \<and> extract_bit 0 = 0 \<and>
        extract_bit (Q - 1) = 1"
    by blast
  from r(2) have "alicePublicsNoisy r ! 0 \<in> set (alicePublicsNoisy r)"
    by (simp add: NUM_BITS_def)
  with r(3) have b: "0 \<le> alicePublicsNoisy r ! 0 \<and> alicePublicsNoisy r ! 0 < Q" by blast
  from r(4) n have w: "addNoise 0 (sconst 0) = Inr (Q - 1, sconst 0)" "extract_bit (Q - 1) = 1"
    by simp_all
  from b r(1,2) have "\<exists>r. clarity (sconst 0) = Inr r \<and> length (alicePublicsNoisy r) = NUM_BITS \<and>
      0 \<le> alicePublicsNoisy r ! 0 \<and> alicePublicsNoisy r ! 0 < Q"
    by blast
  with n w show ?thesis by simp
qed

subsection \<open>The distribution of randomBigInt\<close>

lemma be_value_inj: "length xs = length ys \<Longrightarrow> be_value xs = be_value ys \<Longrightarrow> xs = ys"
proof (induction xs arbitrary: ys rule: rev_induct)
  case Nil
  then show ?case by simp
next
  case (snoc x xs)
  from snoc.prems(1) obtain y ys' where ys: "ys = ys' @ [y]"
    by (cases ys rule: rev_cases) simp_all
  with snoc.prems(1) have len: "length xs = length ys'" by simp
  have e: "256 * be_value xs + uint x = 256 * be_value ys' + uint y"
    using snoc.prems(2) unfolding ys be_value_snoc .
  have bx: "uint x < 256" using uint_bounded [of x] by simp
  have "by": "uint y < 256" using uint_bounded [of y] by simp
  have px: "0 \<le> uint x" and py: "0 \<le> uint y" by simp_all
  have v: "be_value xs = be_value ys'" using e bx "by" px py by linarith
  with e have "uint x = uint y" by linarith
  then have "x = y" by (rule unsigned_word_eqI)
  with snoc.IH [OF len v] ys show ?case by simp
qed

lemma card_byte_arrays: "card {bs :: uint8 list. length bs = n} = 256 ^ n"
  using card_lists_length_eq [of "UNIV :: uint8 set" n] by (simp add: card_word)

lemma inj_on_be_value: "inj_on be_value {bs. length bs = n}"
  by (rule inj_onI) (simp add: be_value_inj)

lemma be_value_image: "be_value ` {bs. length bs = n} = {0..<256 ^ n}"
proof (rule card_subset_eq)
  show "finite {0..<256 ^ n :: int}" by simp
  show "be_value ` {bs. length bs = n} \<subseteq> {0..<256 ^ n}"
    using be_value_bounds by auto
  show "card (be_value ` {bs. length bs = n}) = card {0..<256 ^ n :: int}"
    by (simp add: card_image [OF inj_on_be_value] card_byte_arrays)
qed


lemma card_be_value_mod:
  assumes "0 < m" "0 \<le> v" "v < m"
  shows "int (card {bs. length bs = n \<and> be_value bs mod m = v}) = (256 ^ n + m - 1 - v) div m"
proof -
  have "be_value ` {bs. length bs = n \<and> be_value bs mod m = v} =
      {r. r \<in> be_value ` {bs. length bs = n} \<and> r mod m = v}"
    by auto
  also have "\<dots> = {r. 0 \<le> r \<and> r < 256 ^ n \<and> r mod m = v}"
    by (simp add: be_value_image)
  also have "\<dots> = int ` {k. k < 256 ^ n \<and> k mod nat m = nat v}"
  proof (intro set_eqI iffI)
    fix r assume "r \<in> {r. 0 \<le> r \<and> r < 256 ^ n \<and> r mod m = v}"
    then have r: "0 \<le> r" "r < 256 ^ n" "r mod m = v" by simp_all
    have "nat r < 256 ^ n" using r(1,2) by (simp add: nat_less_iff)
    moreover have "nat (r mod m) = nat r mod nat m"
      using r(1) assms(1) by (intro nat_mod_distrib) simp_all
    then have "nat r mod nat m = nat v" using r(3) by simp
    ultimately show "r \<in> int ` {k. k < 256 ^ n \<and> k mod nat m = nat v}"
      using r(1) by (intro image_eqI [where x = "nat r"]) simp_all
  next
    fix r assume "r \<in> int ` {k. k < 256 ^ n \<and> k mod nat m = nat v}"
    then obtain k where k: "r = int k" "k < 256 ^ n" "k mod nat m = nat v" by auto
    have "int k mod m = int (k mod nat m)" using assms by (simp add: zmod_int)
    also have "\<dots> = v" using k(3) assms by simp
    finally have "int k mod m = v" .
    moreover have "int k < 256 ^ n" using k(2) by (metis of_nat_less_iff of_nat_numeral of_nat_power)
    ultimately show "r \<in> {r. 0 \<le> r \<and> r < 256 ^ n \<and> r mod m = v}" using k(1) by simp
  qed
  finally have "card (be_value ` {bs. length bs = n \<and> be_value bs mod m = v}) =
      card (int ` {k. k < 256 ^ n \<and> k mod nat m = nat v})"
    by simp
  moreover have "inj_on be_value {bs. length bs = n \<and> be_value bs mod m = v}"
    by (rule inj_on_subset [OF inj_on_be_value [of n]]) auto
  ultimately have "card {bs. length bs = n \<and> be_value bs mod m = v} =
      card {k. k < 256 ^ n \<and> k mod nat m = nat v}"
    by (simp add: card_image)
  also have "\<dots> = (256 ^ n + nat m - 1 - nat v) div nat m"
    by (rule card_mod_eq) (use assms in simp)
  finally have "int (card {bs. length bs = n \<and> be_value bs mod m = v}) =
      int ((256 ^ n + nat m - 1 - nat v) div nat m)"
    by simp
  also have "\<dots> = (256 ^ n + m - 1 - v) div m"
  proof -
    have "nat v + 1 \<le> 256 ^ n + nat m" using assms by (simp add: trans_le_add2)
    then have "int (256 ^ n + nat m - 1 - nat v) = 256 ^ n + m - 1 - v"
      using assms by (simp add: of_nat_diff)
    moreover have "int (nat m) = m" using assms by simp
    ultimately show ?thesis by (simp only: zdiv_int)
  qed
  finally show ?thesis .
qed

lemma randomBigInt_preimages_eq:
  "0 < mx \<Longrightarrow> random_bytes mx \<le> 65536 \<Longrightarrow> randomBigInt_preimages mx v =
     {bs. length bs = random_bytes mx \<and> be_value bs mod mx = v}"
  by (auto simp: randomBigInt_preimages_def randomBigInt_eq stake_shift sdrop_shift)

lemma randomBigInt_count:
  "0 < mx \<Longrightarrow> random_bytes mx \<le> 65536 \<Longrightarrow> 0 \<le> v \<Longrightarrow> v < mx \<Longrightarrow>
   int (card (randomBigInt_preimages mx v)) = (256 ^ random_bytes mx + mx - 1 - v) div mx"
  by (simp add: randomBigInt_preimages_eq card_be_value_mod)

lemma random_bytes_3: "random_bytes 3 = 1"
  by (simp add: random_bytes_def bigint_toString_def to_digits.simps [of 2])

lemma preimages_3: "int (card (randomBigInt_preimages 3 0)) = 86"
  "int (card (randomBigInt_preimages 3 1)) = 85"
  by (simp_all add: randomBigInt_count random_bytes_3)

lemma preimages_Q: "int (card (randomBigInt_preimages Q 0)) = 2"
  "int (card (randomBigInt_preimages Q 189)) = 1"
proof -
  have "int (card (randomBigInt_preimages Q 0)) = (256 ^ random_bytes Q + Q - 1 - 0) div Q"
    by (rule randomBigInt_count [OF Q_pos Q_quota]) (simp_all add: Q_def)
  also have "\<dots> = 2" unfolding random_bytes_Q by (simp add: Q_def)
  finally show "int (card (randomBigInt_preimages Q 0)) = 2" .
  have "int (card (randomBigInt_preimages Q 189)) = (256 ^ random_bytes Q + Q - 1 - 189) div Q"
    by (rule randomBigInt_count [OF Q_pos Q_quota]) (simp_all add: Q_def)
  also have "\<dots> = 1" unfolding random_bytes_Q by (simp add: Q_def)
  finally show "int (card (randomBigInt_preimages Q 189)) = 1" .
qed

lemma random_bytes_power2: "random_bytes (2 ^ k) = (k + 8) div 8"
proof -
  have "length (to_digits 2 (2 ^ k)) = Suc k"
    by (rule length_to_digits2) simp_all
  moreover have "nat ((2::int) ^ k) = (2::nat) ^ k" by (simp add: nat_power_eq)
  ultimately show ?thesis by (simp only: random_bytes_def bigint_toString_def) simp
qed

text \<open>
  Claim C5, as amended. For every bound \<open>mx \<ge> 1\<close> that needs at most 65536 random bytes
  (the quota of \<^verbatim>\<open>crypto.getRandomValues\<close>), \<^verbatim>\<open>randomBigInt\<close> returns an integer in
  \<open>[0, mx)\<close>. Of the \<open>2 ^ (8 * bytes)\<close> byte arrays it can draw, exactly
  \<open>(2 ^ (8 * bytes) + mx - 1 - v) div mx\<close> give the value \<open>v\<close>: the reduction modulo \<open>mx\<close>
  favours small values by one preimage, and all values have equally many preimages when
  \<open>mx\<close> divides \<open>2 ^ (8 * bytes)\<close>. For a bound that needs more than 65536 bytes the call
  throws a QuotaExceededError.
\<close>

theorem randomBigInt_range_and_counts:
  "1 \<le> mx \<Longrightarrow>
   (random_bytes mx \<le> 65536 \<longrightarrow>
      (\<exists>x s'. randomBigInt mx s = Inr (x, s') \<and> 0 \<le> x \<and> x < mx) \<and>
      card {array :: uint8 list. length array = random_bytes mx} = 2 ^ (8 * random_bytes mx) \<and>
      (0 \<le> v \<and> v < mx \<longrightarrow>
         int (card (randomBigInt_preimages mx v)) =
           (2 ^ (8 * random_bytes mx) + mx - 1 - v) div mx) \<and>
      (0 \<le> v \<and> v < mx \<and> mx dvd 2 ^ (8 * random_bytes mx) \<longrightarrow>
         int (card (randomBigInt_preimages mx v)) = 2 ^ (8 * random_bytes mx) div mx)) \<and>
   (65536 < random_bytes mx \<longrightarrow> randomBigInt mx s = Inl QuotaExceededError)"
proof -
  assume "1 \<le> mx"
  then have mx: "0 < mx" by simp
  have p: "(2::int) ^ (8 * n) = 256 ^ n" "(2::nat) ^ (8 * n) = 256 ^ n" for n
    by (simp_all add: power_mult)
  have 1: "\<exists>x s'. randomBigInt mx s = Inr (x, s') \<and> 0 \<le> x \<and> x < mx"
    if "random_bytes mx \<le> 65536"
    using mx that by (simp add: randomBigInt_eq)
  have 2: "int (card (randomBigInt_preimages mx v)) = (256 ^ random_bytes mx + mx - 1 - v) div mx"
    if "random_bytes mx \<le> 65536" "0 \<le> v" "v < mx"
    using mx that by (rule randomBigInt_count)
  have 3: "(256 ^ random_bytes mx + mx - 1 - v) div mx = 256 ^ random_bytes mx div mx"
    if "0 \<le> v" "v < mx" "mx dvd 256 ^ random_bytes mx"
  proof -
    from that(3) obtain k where k: "256 ^ random_bytes mx = mx * k" ..
    have "(mx * k + mx - 1 - v) div mx = (mx - 1 - v + k * mx) div mx"
      by (simp add: algebra_simps)
    also have "\<dots> = (mx - 1 - v) div mx + k"
      using mx by simp
    also have "(mx - 1 - v) div mx = 0"
      using that mx by (simp add: div_pos_pos_trivial)
    finally show ?thesis using mx by (simp add: k)
  qed
  have 4: "randomBigInt mx s = Inl QuotaExceededError" if "65536 < random_bytes mx"
    using that by (rule randomBigInt_quota)
  show ?thesis using 1 2 3 4 by (simp add: p card_byte_arrays)
qed

theorem randomBigInt_range_and_counts_witness:
  "(1::int) \<le> 3 \<and> random_bytes 3 \<le> 65536 \<and> (0::int) \<le> 1 \<and> (1::int) < 3 \<and>
   (\<exists>x s'. randomBigInt 3 (sconst 5) = Inr (x, s') \<and> 0 \<le> x \<and> x < 3) \<and>
   int (card (randomBigInt_preimages 3 1)) = 85 \<and>
   1 \<le> SECRET_MAX \<and> random_bytes SECRET_MAX \<le> 65536 \<and> 1 < SECRET_MAX \<and>
   SECRET_MAX dvd 2 ^ (8 * random_bytes SECRET_MAX) \<and>
   int (card (randomBigInt_preimages SECRET_MAX 1)) = 256 \<and>
   (1::int) \<le> 2 ^ 524288 \<and> 65536 < random_bytes (2 ^ 524288) \<and>
   randomBigInt (2 ^ 524288) (sconst 5) = Inl QuotaExceededError"
proof -
  have d: "SECRET_MAX dvd 2 ^ (8 * random_bytes SECRET_MAX)"
    unfolding random_bytes_SECRET_MAX by (simp add: SECRET_MAX_def)
  have s: "1 \<le> SECRET_MAX" "1 < SECRET_MAX" by (simp_all add: SECRET_MAX_def)
  have e: "(2::int) ^ (8 * random_bytes SECRET_MAX) div SECRET_MAX = 256"
    unfolding random_bytes_SECRET_MAX by (simp add: SECRET_MAX_def)
  have a: "(\<exists>x s'. randomBigInt 3 (sconst 5) = Inr (x, s') \<and> 0 \<le> x \<and> x < 3) \<and>
      int (card (randomBigInt_preimages 3 1)) = 85"
    using randomBigInt_range_and_counts [of 3 "sconst 5" 1] by (simp add: random_bytes_3)
  have b: "int (card (randomBigInt_preimages SECRET_MAX 1)) = 256"
    using randomBigInt_range_and_counts [of SECRET_MAX "sconst 5" 1] d s e SECRET_MAX_quota
    by simp
  have q: "65536 < random_bytes (2 ^ 524288)"
    unfolding random_bytes_power2 by simp
  have o: "(1::int) \<le> 2 ^ 524288" by (rule one_le_power) simp
  have c: "randomBigInt (2 ^ 524288) (sconst 5) = Inl QuotaExceededError"
    using randomBigInt_range_and_counts [OF o, of "sconst 5" 1] q by blast
  have t: "(1::int) \<le> 3 \<and> random_bytes 3 \<le> 65536 \<and> (0::int) \<le> 1 \<and> (1::int) < 3"
    by (simp add: random_bytes_3)
  from t a b d s SECRET_MAX_quota o q c show ?thesis by blast
qed

text \<open>
  Claim C5 as stated fails: for the bound 3 the value 0 has 86 preimages and the value 1 has
  85, and for the script's own bound \<open>Q\<close> the value 0 has two preimages and 189 has one.
\<close>

theorem randomBigInt_not_uniform:
  "card (randomBigInt_preimages 3 0) \<noteq> card (randomBigInt_preimages 3 1) \<and>
   card (randomBigInt_preimages Q 0) \<noteq> card (randomBigInt_preimages Q 189)"
  using preimages_3 preimages_Q by linarith

subsection \<open>Printing a key and reading it back\<close>

lemma hex_digit_digit_char: "d < 16 \<Longrightarrow> hex_digit (digit_char d) = Some (int d)"
proof -
  assume "d < 16"
  then have "d \<in> {0, 1, 2, 3, 4, 5, 6, 7, 8, 9, 10, 11, 12, 13, 14, 15}"
    by simp arith
  then show ?thesis
    by (elim insertE emptyE) (simp_all add: digit_char_def hex_digit_def)
qed

lemma parse_hex_append:
  "parse_hex acc (xs @ ys) = (case parse_hex acc xs of None \<Rightarrow> None | Some a \<Rightarrow> parse_hex a ys)"
  by (induction xs arbitrary: acc) (simp_all split: option.split)

lemma parse_hex_to_digits: "parse_hex 0 (to_digits 16 n) = Some (int n)"
proof (induction "16::nat" n rule: to_digits.induct)
  case (1 n)
  show ?case
  proof (cases "n < 16")
    case True
    then show ?thesis
      by (subst to_digits.simps) (simp add: hex_digit_digit_char)
  next
    case False
    have "parse_hex 0 (to_digits 16 (n div 16)) = Some (int (n div 16))"
      using False by (intro 1) simp
    then show ?thesis
      using False
      by (subst to_digits.simps) (simp add: parse_hex_append hex_digit_digit_char zdiv_int zmod_int)
  qed
qed

lemma parse_hex_zeros: "parse_hex 0 (replicate k CHR ''0'' @ s) = parse_hex 0 s"
  by (induction k) (simp_all add: hex_digit_def)

lemma length_to_digits16: "0 < k \<Longrightarrow> n < 16 ^ k \<Longrightarrow> length (to_digits 16 n) \<le> k"
proof (induction k arbitrary: n)
  case 0
  then show ?case by simp
next
  case (Suc k)
  show ?case
  proof (cases "n < 16")
    case True
    then show ?thesis by (subst to_digits.simps) simp
  next
    case False
    with Suc.prems have k: "0 < k" by (cases k) simp_all
    have "n div 16 < 16 ^ k" using Suc.prems(2) by (simp add: less_mult_imp_div_less mult.commute)
    from Suc.IH [OF k this] False show ?thesis
      by (subst to_digits.simps) simp
  qed
qed

lemma key_bits_bitsToBigInt:
  assumes "length bits = NUM_BITS" "set bits \<subseteq> {0, 1}"
  shows "key_bits (bitsToBigInt bits) = bits"
proof (rule nth_equalityI)
  show "length (key_bits (bitsToBigInt bits)) = length bits"
    using assms(1) by (simp add: key_bits_def)
  fix i assume "i < length (key_bits (bitsToBigInt bits))"
  then have i: "i < NUM_BITS" by (simp add: key_bits_def)
  then have "key_bits (bitsToBigInt bits) ! i =
      drop_bit (length bits - 1 - i) (bitsToBigInt bits) AND 1"
    using assms(1) by (simp add: key_bits_def)
  also have "\<dots> = bits ! i"
    using assms i by (intro bitsToBigInt_nth) simp_all
  finally show "key_bits (bitsToBigInt bits) ! i = bits ! i" .
qed

text \<open>
  Claim C8. For every sequence of 256 bits, the key that \<^verbatim>\<open>bitsToBigInt\<close> assembles is
  printed by \<^verbatim>\<open>toString(16).padStart(64, '0')\<close> as exactly 64 characters, and decoding
  that string and re-extracting the 256 bits gives the original sequence back.
\<close>

theorem key_hex_round_trip:
  "length bits = NUM_BITS \<Longrightarrow> set bits \<subseteq> {0, 1} \<Longrightarrow>
   length (key_hex (bitsToBigInt bits)) = 64 \<and>
   decode_key (key_hex (bitsToBigInt bits)) = Some bits"
proof -
  assume len: "length bits = NUM_BITS" and bits: "set bits \<subseteq> {0, 1}"
  define k where "k = bitsToBigInt bits"
  have k: "0 \<le> k" "k < 2 ^ 256"
    using bitsToBigInt_bounds [OF bits] len by (simp_all add: k_def NUM_BITS_def)
  have s: "bigint_toString 16 k = to_digits 16 (nat k)"
    using k(1) by (simp add: bigint_toString_def)
  have "nat k < 2 ^ 256" using k by (simp add: nat_less_iff)
  then have "nat k < 16 ^ 64" by simp
  then have l: "length (to_digits 16 (nat k)) \<le> 64"
    by (intro length_to_digits16) simp_all
  have 1: "length (key_hex k) = 64"
    using l by (simp add: key_hex_def padStart_def s)
  have "parse_hex 0 (key_hex k) = Some (int (nat k))"
    by (simp add: key_hex_def padStart_def s parse_hex_zeros parse_hex_to_digits)
  then have "parse_hex 0 (key_hex k) = Some k" using k(1) by simp
  then have 2: "decode_key (key_hex k) = Some bits"
    using key_bits_bitsToBigInt [OF len bits] by (simp add: decode_key_def k_def)
  show ?thesis using 1 2 by (simp add: k_def)
qed


theorem key_hex_round_trip_witness:
  "length (replicate 252 0 @ [1, 0, 1, 0 :: int]) = NUM_BITS \<and>
   set (replicate 252 0 @ [1, 0, 1, 0 :: int]) \<subseteq> {0, 1} \<and>
   key_hex (bitsToBigInt (replicate 252 0 @ [1, 0, 1, 0])) = replicate 63 CHR ''0'' @ ''a'' \<and>
   decode_key (replicate 63 CHR ''0'' @ ''a'') = Some (replicate 252 0 @ [1, 0, 1, 0])"
proof -
  have l: "length (replicate 252 0 @ [1, 0, 1, 0 :: int]) = NUM_BITS"
    by (simp add: NUM_BITS_def)
  have s: "set (replicate 252 0 @ [1, 0, 1, 0 :: int]) \<subseteq> {0, 1}" by auto
  have v: "bitsToBigInt (replicate 252 0 @ [1, 0, 1, 0]) = 10"
    using bitsToBigInt_replicate_0 [of 252] by (simp add: bitsToBigInt_def)
  have h: "key_hex 10 = replicate 63 CHR ''0'' @ ''a''"
    by (simp add: key_hex_def padStart_def bigint_toString_def to_digits.simps [of 16 10]
        digit_char_def)
  show ?thesis
    using key_hex_round_trip [OF l s] l s unfolding v h by simp
qed

end
